theory Spec2Isabelle
  imports Main "HOL-Library.Word" "HOL-Library.Monad_Syntax"
begin

unbundle bit_operations_syntax

section \<open>Machine types and the memory of the process\<close>

text \<open>
  The native library \<^verbatim>\<open>native-lib.cpp\<close> works on three integer types: \<^verbatim>\<open>unsigned char\<close>
  (8 bits), JNI's \<^verbatim>\<open>jchar\<close> (16 bits, unsigned) and JNI's \<^verbatim>\<open>jint\<close>/\<^verbatim>\<open>jsize\<close> (32 bits,
  signed). \<^verbatim>\<open>size_t\<close> values are natural numbers below \<open>2 ^ 64\<close> (the 64-bit Android ABIs).
\<close>

type_synonym uchar = "8 word"
type_synonym jchar = "16 word"
type_synonym jint = "32 word"

text \<open>
  Memory is a store of blocks of bytes. A block is either the storage of a Java
  \<^verbatim>\<open>char[]\<close> object (\<open>JArr h\<close>, two bytes per element, low byte first) or a native block
  (\<open>Blk n\<close>: \<^verbatim>\<open>malloc\<close>, a stack array, or the copy of an array that the runtime hands
  out). Every pointer the code holds points to the start of a block; \<open>None\<close> is
  \<^verbatim>\<open>NULL\<close>. A Java array reference is the number of its object, \<open>None\<close> is \<^verbatim>\<open>null\<close>.
\<close>

datatype addr = JArr nat | Blk nat

type_synonym ptr = "addr option"
type_synonym jarray = "nat option"

text \<open>
  A JNI function signals an error to its Java caller by leaving an exception pending in
  the runtime. The names are those of the specification's error taxonomy;
  \<^verbatim>\<open>native-lib.cpp\<close> contains no \<^verbatim>\<open>Throw\<close> call, so no function below sets one.
\<close>

datatype jthrowable = AllocationError | BufferTooSmallError | NotFoundError

text \<open>
  The release modes the code passes to \<^verbatim>\<open>ReleaseCharArrayElements\<close>: \<open>0\<close> (copy back
  and free the buffer) and \<^verbatim>\<open>JNI_ABORT\<close> (free the buffer without copying back).
\<close>

datatype release_mode = MODE_0 | JNI_ABORT

text \<open>
  The calls into libc and the runtime that a run makes, in order. \<open>Memzero a n\<close> stands for
  a call of \<^verbatim>\<open>secure_memzero\<close> that writes (non-null pointer, \<open>n > 0\<close>); \<open>Memcmp a b n\<close>
  tells which two buffers a comparison reads.
\<close>

datatype event =
    Malloc addr nat
  | Mlock addr nat
  | Munlock addr nat
  | Memzero addr nat
  | Free addr
  | Memcmp addr addr nat
  | GetElements nat addr
  | ReleaseElements nat addr release_mode

text \<open>
  The state of the process: the memory, the number of the next native block, the bytes a
  fresh block happens to hold, the calls made so far, and the exception pending in the
  runtime, if any.
\<close>

record world =
  mem :: "addr \<Rightarrow> uchar list option"
  next_blk :: nat
  garbage :: "nat \<Rightarrow> uchar"
  trace :: "event list"
  pending_exception :: "jthrowable option"

definition record_event :: "event \<Rightarrow> world \<Rightarrow> world" where
  "record_event e s = s\<lparr>trace := trace s @ [e]\<rparr>"

text \<open>
  Reading or writing outside a live block is undefined behaviour in C; the model
  returns \<open>None\<close> there.
\<close>

definition load8 :: "world \<Rightarrow> addr \<Rightarrow> nat \<Rightarrow> uchar option" where
  "load8 s a i =
     (case mem s a of
        None \<Rightarrow> None
      | Some bs \<Rightarrow> if i < length bs then Some (bs ! i) else None)"

definition store8 :: "addr \<Rightarrow> nat \<Rightarrow> uchar \<Rightarrow> world \<Rightarrow> world option" where
  "store8 a i v s =
     (case mem s a of
        None \<Rightarrow> None
      | Some bs \<Rightarrow>
          if i < length bs then Some (s\<lparr>mem := (mem s)(a \<mapsto> bs[i := v])\<rparr>) else None)"

section \<open>secure\_memzero\<close>

text \<open>
  \<^verbatim>\<open>if (!ptr || len == 0) return;  while (len--) *p++ = 0;\<close>
  The loop writes one zero byte per iteration, at offsets \<open>0, 1, ...\<close> from \<open>ptr\<close>.
\<close>

fun memzero_loop :: "addr \<Rightarrow> nat \<Rightarrow> nat \<Rightarrow> world \<Rightarrow> world option" where
  "memzero_loop a i 0 s = Some s"
| "memzero_loop a i (Suc len) s =
     (case store8 a i 0 s of
        None \<Rightarrow> None
      | Some s' \<Rightarrow> memzero_loop a (Suc i) len s')"

definition secure_memzero :: "ptr \<Rightarrow> nat \<Rightarrow> world \<Rightarrow> world option" where
  "secure_memzero p len s =
     (case p of
        None \<Rightarrow> Some s
      | Some a \<Rightarrow>
          if len = 0 then Some s
          else memzero_loop a 0 len (record_event (Memzero a len) s))"

section \<open>Integer conversions\<close>

text \<open>
  An \<^verbatim>\<open>int\<close> converted to \<^verbatim>\<open>size_t\<close> is sign-extended to 64 bits and read unsigned;
  \<^verbatim>\<open>size_t\<close> multiplication wraps at \<open>2 ^ 64\<close>.
\<close>

definition to_size_t :: "jint \<Rightarrow> nat" where
  "to_size_t x = unat (scast x :: 64 word)"

definition size_mul :: "nat \<Rightarrow> nat \<Rightarrow> nat" where
  "size_mul a b = (a * b) mod 2 ^ 64"

definition lo_byte :: "jchar \<Rightarrow> uchar" where
  "lo_byte c = ucast c"

definition hi_byte :: "jchar \<Rightarrow> uchar" where
  "hi_byte c = ucast (drop_bit 8 c)"

definition jchar_of :: "uchar \<Rightarrow> uchar \<Rightarrow> jchar" where
  "jchar_of lo hi = ucast lo OR push_bit 8 (ucast hi)"

text \<open>
  \<^verbatim>\<open>(jchar) tempDecrypt[i]\<close> converts a plain \<^verbatim>\<open>char\<close>: sign-extended where the ABI's
  \<^verbatim>\<open>char\<close> is signed (x86), zero-extended where it is unsigned (ARM).
\<close>

definition char_to_jchar :: "bool \<Rightarrow> uchar \<Rightarrow> jchar" where
  "char_to_jchar is_signed c = (if is_signed then scast c else ucast c)"

definition load16 :: "world \<Rightarrow> addr \<Rightarrow> nat \<Rightarrow> jchar option" where
  "load16 s a i =
     (case load8 s a (2 * i) of
        None \<Rightarrow> None
      | Some lo \<Rightarrow>
          (case load8 s a (2 * i + 1) of
             None \<Rightarrow> None
           | Some hi \<Rightarrow> Some (jchar_of lo hi)))"

definition store16 :: "addr \<Rightarrow> nat \<Rightarrow> jchar \<Rightarrow> world \<Rightarrow> world option" where
  "store16 a i c s =
     (case store8 a (2 * i) (lo_byte c) s of
        None \<Rightarrow> None
      | Some s' \<Rightarrow> store8 a (2 * i + 1) (hi_byte c) s')"

text \<open>What the Java caller sees of an array: its elements, read from the storage.\<close>

fun chars_of_bytes :: "uchar list \<Rightarrow> jchar list" where
  "chars_of_bytes (lo # hi # bs) = jchar_of lo hi # chars_of_bytes bs"
| "chars_of_bytes bs = []"

definition bytes_of_chars :: "jchar list \<Rightarrow> uchar list" where
  "bytes_of_chars cs = concat (map (\<lambda>c. [lo_byte c, hi_byte c]) cs)"

definition java_array :: "world \<Rightarrow> nat \<Rightarrow> jchar list option" where
  "java_array s h = map_option chars_of_bytes (mem s (JArr h))"

section \<open>libc: malloc, free, mlock, munlock, memcmp\<close>

text \<open>
  Whether an allocation succeeds is the environment's choice, passed as \<open>ok\<close>. A fresh
  block holds indeterminate bytes (\<open>garbage\<close>). \<^verbatim>\<open>free(NULL)\<close> does nothing; freeing
  anything but a live native block is undefined. The results of \<^verbatim>\<open>mlock\<close> and
  \<^verbatim>\<open>munlock\<close> are ignored by the code.
\<close>

definition uninitialised :: "(nat \<Rightarrow> uchar) \<Rightarrow> nat \<Rightarrow> uchar list" where
  "uninitialised g n = map g [0..<n]"

definition malloc :: "bool \<Rightarrow> nat \<Rightarrow> world \<Rightarrow> ptr \<times> world" where
  "malloc ok n s =
     (if ok then
        (Some (Blk (next_blk s)),
         record_event (Malloc (Blk (next_blk s)) n)
           (s\<lparr>mem := (mem s)(Blk (next_blk s) \<mapsto> uninitialised (garbage s) n),
              next_blk := Suc (next_blk s)\<rparr>))
      else (None, s))"

definition free :: "ptr \<Rightarrow> world \<Rightarrow> world option" where
  "free p s =
     (case p of
        None \<Rightarrow> Some s
      | Some (JArr h) \<Rightarrow> None
      | Some (Blk n) \<Rightarrow>
          (case mem s (Blk n) of
             None \<Rightarrow> None
           | Some bs \<Rightarrow> Some (record_event (Free (Blk n)) (s\<lparr>mem := (mem s)(Blk n := None)\<rparr>))))"

definition mlock :: "addr \<Rightarrow> nat \<Rightarrow> world \<Rightarrow> world" where
  "mlock a n s = record_event (Mlock a n) s"

definition munlock :: "addr \<Rightarrow> nat \<Rightarrow> world \<Rightarrow> world" where
  "munlock a n s = record_event (Munlock a n) s"

text \<open>Stack arrays: a block that exists until the function returns.\<close>

definition stack_array :: "nat \<Rightarrow> world \<Rightarrow> addr \<times> world" where
  "stack_array n s =
     (Blk (next_blk s),
      s\<lparr>mem := (mem s)(Blk (next_blk s) \<mapsto> uninitialised (garbage s) n),
        next_blk := Suc (next_blk s)\<rparr>)"

definition leave_scope :: "addr \<Rightarrow> world \<Rightarrow> world" where
  "leave_scope a s = s\<lparr>mem := (mem s)(a := None)\<rparr>"

text \<open>
  \<^verbatim>\<open>memcmp\<close> by the C standard: the sign of the first differing pair of bytes, read as
  \<^verbatim>\<open>unsigned char\<close>, \<open>0\<close> when the first \<open>n\<close> bytes agree.
\<close>

fun memcmp_bytes :: "uchar list \<Rightarrow> uchar list \<Rightarrow> int" where
  "memcmp_bytes (x # xs) (y # ys) =
     (if x = y then memcmp_bytes xs ys else int (unat x) - int (unat y))"
| "memcmp_bytes xs ys = 0"

definition memcmp :: "addr \<Rightarrow> addr \<Rightarrow> nat \<Rightarrow> world \<Rightarrow> (int \<times> world) option" where
  "memcmp a b n s =
     (case mem s a of
        None \<Rightarrow> None
      | Some xs \<Rightarrow>
          (case mem s b of
             None \<Rightarrow> None
           | Some ys \<Rightarrow>
               if n \<le> length xs \<and> n \<le> length ys
               then Some (memcmp_bytes (take n xs) (take n ys), record_event (Memcmp a b n) s)
               else None))"

section \<open>The JNI array functions\<close>

text \<open>
  \<^verbatim>\<open>GetCharArrayElements\<close> fails (\<^verbatim>\<open>NULL\<close>), pins the array and returns a pointer to its
  storage, or returns a pointer to a fresh copy: the runtime's choice, passed as the
  first argument. \<^verbatim>\<open>ReleaseCharArrayElements\<close> on a copy writes the copy back to the
  array unless the mode is \<^verbatim>\<open>JNI_ABORT\<close>, and frees the copy; on a pinned array it
  only unpins. A null or dangling reference is undefined.
\<close>

datatype get_outcome = GET_FAILS | GET_DIRECT | GET_COPY

definition GetCharArrayElements ::
  "get_outcome \<Rightarrow> jarray \<Rightarrow> world \<Rightarrow> (ptr \<times> world) option" where
  "GetCharArrayElements g jarr s =
     (case jarr of
        None \<Rightarrow> None
      | Some h \<Rightarrow>
          (case mem s (JArr h) of
             None \<Rightarrow> None
           | Some bs \<Rightarrow>
               (case g of
                  GET_FAILS \<Rightarrow> Some (None, s)
                | GET_DIRECT \<Rightarrow> Some (Some (JArr h), record_event (GetElements h (JArr h)) s)
                | GET_COPY \<Rightarrow>
                    Some (Some (Blk (next_blk s)),
                      record_event (GetElements h (Blk (next_blk s)))
                        (s\<lparr>mem := (mem s)(Blk (next_blk s) \<mapsto> bs),
                           next_blk := Suc (next_blk s)\<rparr>)))))"

definition ReleaseCharArrayElements ::
  "jarray \<Rightarrow> ptr \<Rightarrow> release_mode \<Rightarrow> world \<Rightarrow> world option" where
  "ReleaseCharArrayElements jarr p mode s =
     (case jarr of
        None \<Rightarrow> None
      | Some h \<Rightarrow>
          (case p of
             None \<Rightarrow> None
           | Some a \<Rightarrow>
               (case mem s (JArr h) of
                  None \<Rightarrow> None
                | Some bs \<Rightarrow>
                    if a = JArr h then Some (record_event (ReleaseElements h a mode) s)
                    else
                      (case a of
                         JArr k \<Rightarrow> None
                       | Blk n \<Rightarrow>
                           (case mem s a of
                              None \<Rightarrow> None
                            | Some cs \<Rightarrow>
                                Some (record_event (ReleaseElements h a mode)
                                  (s\<lparr>mem :=
                                     (if mode = JNI_ABORT then mem s
                                      else (mem s)(JArr h \<mapsto> cs))(a := None)\<rparr>)))))))"

definition GetArrayLength :: "jarray \<Rightarrow> world \<Rightarrow> nat option" where
  "GetArrayLength jarr s =
     (case jarr of
        None \<Rightarrow> None
      | Some h \<Rightarrow> map_option (\<lambda>bs. length bs div 2) (mem s (JArr h)))"

section \<open>Credential storage and checkCredentials\<close>

definition ENC_USER :: "uchar list" where
  "ENC_USER = [0x3B, 0x3E, 0x37, 0x33, 0x34]"

definition ENC_PASS :: "uchar list" where
  "ENC_PASS = [0x3B, 0x3E, 0x37, 0x33, 0x34]"

definition XOR_KEY :: uchar where
  "XOR_KEY = 0x5A"

text \<open>The environment's choices during one call of \<^verbatim>\<open>checkCredentials\<close>.\<close>

record cc_env =
  locked_ok :: bool
  user_get :: get_outcome
  pass_get :: get_outcome
  userBytes_ok :: bool
  passBytes_ok :: bool

text \<open>
  \<^verbatim>\<open>for (int i = 0; i < userLen; i++) userBytes[i] = (unsigned char) userChars[i];\<close>
\<close>

function narrow_loop :: "addr \<Rightarrow> addr \<Rightarrow> int \<Rightarrow> int \<Rightarrow> world \<Rightarrow> world option" where
  "narrow_loop dst src i n s =
     (if i < n then
        (case load16 s src (nat i) of
           None \<Rightarrow> None
         | Some c \<Rightarrow>
             (case store8 dst (nat i) (ucast c) s of
                None \<Rightarrow> None
              | Some s' \<Rightarrow> narrow_loop dst src (i + 1) n s'))
      else Some s)"
  by pat_completeness auto
termination
  by (relation "measure (\<lambda>(dst, src, i, n, s). nat (n - i))") auto

declare narrow_loop.simps [simp del]

text \<open>
  \<^verbatim>\<open>for (size_t i = 0; i < sizeof(ENC); i++) dst[i] = ENC[i] ^ KEY;\<close>
\<close>

function xor_loop :: "addr \<Rightarrow> uchar list \<Rightarrow> uchar \<Rightarrow> nat \<Rightarrow> nat \<Rightarrow> world \<Rightarrow> world option" where
  "xor_loop dst enc key i n s =
     (if i < n then
        (case store8 dst i ((enc ! i) XOR key) s of
           None \<Rightarrow> None
         | Some s' \<Rightarrow> xor_loop dst enc key (Suc i) n s')
      else Some s)"
  by pat_completeness auto
termination
  by (relation "measure (\<lambda>(dst, enc, key, i, n, s). n - i)") auto

declare xor_loop.simps [simp del]

text \<open>
  Step 5. \<^verbatim>\<open>match = (memcmp(userBytes, decryptedUser, userLen) == 0) &&
  (memcmp(passBytes, decryptedPass, passLen) == 0)\<close>, under the guard
  \<^verbatim>\<open>userLen == sizeof(ENC_USER) && passLen == sizeof(ENC_PASS)\<close>. The second
  \<^verbatim>\<open>memcmp\<close> is called only when the first returned \<open>0\<close>.
\<close>

definition compare_credentials ::
  "addr \<Rightarrow> addr \<Rightarrow> addr \<Rightarrow> addr \<Rightarrow> jint \<Rightarrow> jint \<Rightarrow> world \<Rightarrow> (bool \<times> world) option" where
  "compare_credentials userBytes decryptedUser passBytes decryptedPass userLen passLen s =
     (if to_size_t userLen = length ENC_USER \<and> to_size_t passLen = length ENC_PASS then
        (case memcmp userBytes decryptedUser (to_size_t userLen) s of
           None \<Rightarrow> None
         | Some (r1, s1) \<Rightarrow>
             if r1 = 0 then
               (case memcmp passBytes decryptedPass (to_size_t passLen) s1 of
                  None \<Rightarrow> None
                | Some (r2, s2) \<Rightarrow> Some (r2 = 0, s2))
             else Some (False, s1))
      else Some (False, s))"

text \<open>
  \<^verbatim>\<open>if (locked_mem) { secure_memzero(locked_mem, 1024); free(locked_mem); }\<close>
\<close>

definition wipe_free_locked :: "ptr \<Rightarrow> world \<Rightarrow> world option" where
  "wipe_free_locked locked_mem s =
     (case locked_mem of
        None \<Rightarrow> Some s
      | Some a \<Rightarrow>
          (case secure_memzero locked_mem 1024 s of
             None \<Rightarrow> None
           | Some s' \<Rightarrow> free locked_mem s'))"

text \<open>
  Step 6, the cleanup of the success path: wipe the decrypted credentials on the stack,
  wipe and free the temporary buffers, wipe the element buffers of both Java arrays and
  release them with \<^verbatim>\<open>JNI_ABORT\<close>, wipe and free the locked block.
\<close>

definition cc_cleanup ::
  "jarray \<Rightarrow> jarray \<Rightarrow> jint \<Rightarrow> jint \<Rightarrow> ptr \<Rightarrow> addr \<Rightarrow> addr \<Rightarrow> addr \<Rightarrow> addr \<Rightarrow>
   addr \<Rightarrow> addr \<Rightarrow> world \<Rightarrow> world option" where
  "cc_cleanup juser jpass userLen passLen locked_mem userChars passChars
     userBytes passBytes decryptedUser decryptedPass s7 =
     do {
       s8 \<leftarrow> secure_memzero (Some decryptedUser) (length ENC_USER) s7;
       s9 \<leftarrow> secure_memzero (Some decryptedPass) (length ENC_PASS) s8;
       s10 \<leftarrow> secure_memzero (Some userBytes) (to_size_t userLen) s9;
       s11 \<leftarrow> secure_memzero (Some passBytes) (to_size_t passLen) s10;
       s12 \<leftarrow> free (Some userBytes) s11;
       s13 \<leftarrow> free (Some passBytes) s12;
       s14 \<leftarrow> secure_memzero (Some userChars) (size_mul (to_size_t userLen) 2) s13;
       s15 \<leftarrow> secure_memzero (Some passChars) (size_mul (to_size_t passLen) 2) s14;
       s16 \<leftarrow> ReleaseCharArrayElements juser (Some userChars) JNI_ABORT s15;
       s17 \<leftarrow> ReleaseCharArrayElements jpass (Some passChars) JNI_ABORT s16;
       wipe_free_locked locked_mem s17
     }"

text \<open>Steps 3 to 6 of \<^verbatim>\<open>checkCredentials\<close>, once both temporary buffers exist.\<close>

definition check_and_cleanup ::
  "jarray \<Rightarrow> jarray \<Rightarrow> jint \<Rightarrow> jint \<Rightarrow> ptr \<Rightarrow> addr \<Rightarrow> addr \<Rightarrow> addr \<Rightarrow> addr \<Rightarrow>
   world \<Rightarrow> (bool \<times> world) option" where
  "check_and_cleanup juser jpass userLen passLen locked_mem userChars passChars
     userBytes passBytes s0 =
     do {
       s1 \<leftarrow> narrow_loop userBytes userChars 0 (sint userLen) s0;
       s2 \<leftarrow> narrow_loop passBytes passChars 0 (sint passLen) s1;
       let (decryptedUser, s3) = stack_array (length ENC_USER) s2;
       let (decryptedPass, s4) = stack_array (length ENC_PASS) s3;
       s5 \<leftarrow> xor_loop decryptedUser ENC_USER XOR_KEY 0 (length ENC_USER) s4;
       s6 \<leftarrow> xor_loop decryptedPass ENC_PASS XOR_KEY 0 (length ENC_PASS) s5;
       (match, s7) \<leftarrow>
         compare_credentials userBytes decryptedUser passBytes decryptedPass userLen passLen s6;
       s18 \<leftarrow> cc_cleanup juser jpass userLen passLen locked_mem userChars passChars
         userBytes passBytes decryptedUser decryptedPass s7;
       Some (match, leave_scope decryptedPass (leave_scope decryptedUser s18))
     }"

definition checkCredentials ::
  "cc_env \<Rightarrow> jarray \<Rightarrow> jarray \<Rightarrow> jint \<Rightarrow> jint \<Rightarrow> world \<Rightarrow> (bool \<times> world) option" where
  "checkCredentials env juser jpass userLen passLen s =
     do {
       let (locked_mem, s1) = malloc (locked_ok env) 1024 s;
       let s2 = (case locked_mem of None \<Rightarrow> s1 | Some a \<Rightarrow> mlock a 1024 s1);
       (userChars, s3) \<leftarrow> GetCharArrayElements (user_get env) juser s2;
       (passChars, s4) \<leftarrow> GetCharArrayElements (pass_get env) jpass s3;
       if userChars = None \<or> passChars = None then
         do {
           s5 \<leftarrow> (if userChars = None then Some s4
                  else ReleaseCharArrayElements juser userChars JNI_ABORT s4);
           s6 \<leftarrow> (if passChars = None then Some s5
                  else ReleaseCharArrayElements jpass passChars JNI_ABORT s5);
           s7 \<leftarrow> wipe_free_locked locked_mem s6;
           Some (False, s7)
         }
       else
         do {
           let (userBytes, s5) = malloc (userBytes_ok env) (to_size_t userLen) s4;
           let (passBytes, s6) = malloc (passBytes_ok env) (to_size_t passLen) s5;
           if userBytes = None \<or> passBytes = None then
             do {
               s7 \<leftarrow> free userBytes s6;
               s8 \<leftarrow> free passBytes s7;
               s9 \<leftarrow> ReleaseCharArrayElements juser userChars JNI_ABORT s8;
               s10 \<leftarrow> ReleaseCharArrayElements jpass passChars JNI_ABORT s9;
               s11 \<leftarrow> wipe_free_locked locked_mem s10;
               Some (False, s11)
             }
           else
             check_and_cleanup juser jpass userLen passLen locked_mem
               (the userChars) (the passChars) (the userBytes) (the passBytes) s6
         }
     }"

section \<open>The flag: getFlagLength, decryptFlagIntoBuffer, wipeFlagBuffer\<close>

definition ENC_FLAG :: "uchar list" where
  "ENC_FLAG =
     [0x1C, 0x16, 0x1B, 0x1D, 0x21, 0x09, 0x09, 0x09, 0x2F, 0x2A, 0x3F, 0x28, 0x05,
      0x09, 0x3F, 0x39, 0x28, 0x3F, 0x2E, 0x05, 0x1C, 0x36, 0x3B, 0x3D, 0x27]"

definition FLAG_LEN :: nat where
  "FLAG_LEN = length ENC_FLAG"

definition FLAG_KEY :: uchar where
  "FLAG_KEY = 0x5A"


record df_env =
  buffer_get :: get_outcome
  lockedMem_ok :: bool
  tempDecrypt_ok :: bool
  char_signed :: bool

text \<open>
  \<^verbatim>\<open>for (size_t i = 0; i < FLAG_LEN; i++) buffer[i] = (jchar) tempDecrypt[i];\<close>
\<close>

function widen_loop :: "bool \<Rightarrow> addr \<Rightarrow> addr \<Rightarrow> nat \<Rightarrow> nat \<Rightarrow> world \<Rightarrow> world option" where
  "widen_loop is_signed dst src i n s =
     (if i < n then
        (case load8 s src i of
           None \<Rightarrow> None
         | Some c \<Rightarrow>
             (case store16 dst i (char_to_jchar is_signed c) s of
                None \<Rightarrow> None
              | Some s' \<Rightarrow> widen_loop is_signed dst src (Suc i) n s'))
      else Some s)"
  by pat_completeness auto
termination
  by (relation "measure (\<lambda>(is_signed, dst, src, i, n, s). n - i)") auto

declare widen_loop.simps [simp del]

text \<open>
  The success path of \<^verbatim>\<open>decryptFlagIntoBuffer\<close>, once the temporary buffer exists:
  decrypt, copy to the Java buffer, wipe and free the temporary buffer, wipe, unlock and
  free the locked block, release the array with mode \<open>0\<close>.
\<close>

definition decrypt_and_copy ::
  "bool \<Rightarrow> jarray \<Rightarrow> addr \<Rightarrow> ptr \<Rightarrow> addr \<Rightarrow> world \<Rightarrow> world option" where
  "decrypt_and_copy is_signed jbuffer buffer lockedMem tempDecrypt s0 =
     do {
       s1 \<leftarrow> xor_loop tempDecrypt ENC_FLAG FLAG_KEY 0 FLAG_LEN s0;
       s2 \<leftarrow> widen_loop is_signed buffer tempDecrypt 0 FLAG_LEN s1;
       s3 \<leftarrow> secure_memzero (Some tempDecrypt) FLAG_LEN s2;
       s4 \<leftarrow> free (Some tempDecrypt) s3;
       s5 \<leftarrow> (case lockedMem of
                None \<Rightarrow> Some s4
              | Some a \<Rightarrow>
                  (case secure_memzero lockedMem 1024 s4 of
                     None \<Rightarrow> None
                   | Some t \<Rightarrow> free lockedMem (munlock a 1024 t)));
       ReleaseCharArrayElements jbuffer (Some buffer) MODE_0 s5
     }"

definition decryptFlagIntoBuffer :: "df_env \<Rightarrow> jarray \<Rightarrow> world \<Rightarrow> world option" where
  "decryptFlagIntoBuffer env jbuffer s =
     (if jbuffer = None then Some s
      else
        do {
          (buffer, s1) \<leftarrow> GetCharArrayElements (buffer_get env) jbuffer s;
          if buffer = None then Some s1
          else
            do {
              bufferSize \<leftarrow> GetArrayLength jbuffer s1;
              if bufferSize < FLAG_LEN then
                ReleaseCharArrayElements jbuffer buffer JNI_ABORT s1
              else
                do {
                  let (lockedMem, s2) = malloc (lockedMem_ok env) 1024 s1;
                  let s3 = (case lockedMem of None \<Rightarrow> s2 | Some a \<Rightarrow> mlock a 1024 s2);
                  let (tempDecrypt, s4) = malloc (tempDecrypt_ok env) FLAG_LEN s3;
                  if tempDecrypt = None then
                    do {
                      s5 \<leftarrow> (case lockedMem of
                               None \<Rightarrow> Some s4
                             | Some a \<Rightarrow> free lockedMem (munlock a 1024 s4));
                      ReleaseCharArrayElements jbuffer buffer JNI_ABORT s5
                    }
                  else
                    decrypt_and_copy (char_signed env) jbuffer (the buffer) lockedMem
                      (the tempDecrypt) s4
                }
            }
        })"

text \<open>
  \<^verbatim>\<open>secure_memzero(buffer, length * sizeof(jchar));\<close> then release with \<^verbatim>\<open>JNI_ABORT\<close>.
\<close>

definition wipeFlagBuffer :: "get_outcome \<Rightarrow> jarray \<Rightarrow> world \<Rightarrow> world option" where
  "wipeFlagBuffer g jbuffer s =
     (if jbuffer = None then Some s
      else
        do {
          (buffer, s1) \<leftarrow> GetCharArrayElements g jbuffer s;
          if buffer = None then Some s1
          else
            do {
              len \<leftarrow> GetArrayLength jbuffer s1;
              s2 \<leftarrow> secure_memzero buffer (size_mul len 2) s1;
              ReleaseCharArrayElements jbuffer buffer JNI_ABORT s2
            }
        })"

section \<open>Worlds to run the code in\<close>

definition empty_world :: world where
  "empty_world =
     \<lparr>mem = (\<lambda>a. None), next_blk = 0, garbage = (\<lambda>i. 0xAA), trace = [],
      pending_exception = None\<rparr>"

text \<open>The Java caller's \<^verbatim>\<open>char[]\<close> object number \<open>h\<close>, holding the characters \<open>cs\<close>.\<close>

definition with_array :: "nat \<Rightarrow> jchar list \<Rightarrow> world \<Rightarrow> world" where
  "with_array h cs s = s\<lparr>mem := (mem s)(JArr h \<mapsto> bytes_of_chars cs)\<rparr>"

definition all_ok :: cc_env where
  "all_ok =
     \<lparr>locked_ok = True, user_get = GET_COPY, pass_get = GET_COPY,
      userBytes_ok = True, passBytes_ok = True\<rparr>"

definition df_ok :: df_env where
  "df_ok = \<lparr>buffer_get = GET_COPY, lockedMem_ok = True, tempDecrypt_ok = True, char_signed = False\<rparr>"

text \<open>The characters of \<^verbatim>\<open>"admin"\<close>, and the same with the high byte of the first one set.\<close>

definition admin_chars :: "jchar list" where
  "admin_chars = [0x61, 0x64, 0x6D, 0x69, 0x6E]"

definition admin_high :: "jchar list" where
  "admin_high = [0x161, 0x64, 0x6D, 0x69, 0x6E]"

section \<open>Plaintexts and vocabulary for the proofs\<close>

text \<open>The stored secrets, decrypted: each encrypted byte XOR the key.\<close>

definition plain_user :: "uchar list" where
  "plain_user = map (\<lambda>b. b XOR XOR_KEY) ENC_USER"

definition plain_pass :: "uchar list" where
  "plain_pass = map (\<lambda>b. b XOR XOR_KEY) ENC_PASS"

definition flag_plain :: "uchar list" where
  "flag_plain = map (\<lambda>b. b XOR FLAG_KEY) ENC_FLAG"

text \<open>
  The size of a live block; a live block of at least \<open>n\<close> bytes; a native block; an
  address that exists already (every native block handed out later is different).
\<close>

definition blen :: "world \<Rightarrow> addr \<Rightarrow> nat option" where
  "blen s a = map_option length (mem s a)"

definition has_bytes :: "world \<Rightarrow> addr \<Rightarrow> nat \<Rightarrow> bool" where
  "has_bytes s a n = (case blen s a of None \<Rightarrow> False | Some L \<Rightarrow> n \<le> L)"

definition is_blk :: "addr \<Rightarrow> bool" where
  "is_blk a = (case a of Blk k \<Rightarrow> True | JArr h \<Rightarrow> False)"

definition below :: "world \<Rightarrow> addr \<Rightarrow> bool" where
  "below s a = (case a of Blk k \<Rightarrow> k < next_blk s | JArr h \<Rightarrow> True)"


section \<open>Bytes, characters and sizes\<close>

lemma length_uninitialised [simp]: "length (uninitialised g n) = n"
  by (simp add: uninitialised_def)

lemma lo_byte_jchar_of: "lo_byte (jchar_of lo hi) = lo"
  unfolding lo_byte_def jchar_of_def
  by (rule bit_word_eqI) (auto simp: bit_simps)

lemma hi_byte_jchar_of: "hi_byte (jchar_of lo hi) = hi"
  unfolding hi_byte_def jchar_of_def
  by (rule bit_word_eqI) (auto simp: bit_simps dest: bit_imp_le_length)

lemma jchar_of_bytes: "jchar_of (lo_byte c) (hi_byte c) = c"
  unfolding lo_byte_def hi_byte_def jchar_of_def
  by (rule bit_word_eqI) (auto simp: bit_simps)

lemma length_chars_of_bytes: "length (chars_of_bytes bs) = length bs div 2"
  by (induction bs rule: chars_of_bytes.induct) simp_all

lemma chars_of_bytes_of_chars: "chars_of_bytes (bytes_of_chars cs @ bs) = cs @ chars_of_bytes bs"
  by (induction cs) (simp_all add: bytes_of_chars_def jchar_of_bytes)

lemma length_bytes_of_chars: "length (bytes_of_chars cs) = 2 * length cs"
  by (induction cs) (simp_all add: bytes_of_chars_def)

lemma chars_of_bytes_nth:
  "i < length bs div 2 \<Longrightarrow> chars_of_bytes bs ! i = jchar_of (bs ! (2 * i)) (bs ! (2 * i + 1))"
proof (induction bs arbitrary: i rule: chars_of_bytes.induct)
  case (1 lo hi bs)
  then show ?case by (cases i) simp_all
qed simp_all

lemma bytes_of_chars_of_bytes: "even (length bs) \<Longrightarrow> bytes_of_chars (chars_of_bytes bs) = bs"
proof (induction bs rule: chars_of_bytes.induct)
  case (1 lo hi bs)
  then show ?case by (simp add: bytes_of_chars_def lo_byte_jchar_of hi_byte_jchar_of)
qed (simp_all add: bytes_of_chars_def)

lemma to_size_t_take_bit: "to_size_t x = nat (take_bit 64 (sint x))"
proof -
  have "to_size_t x = unat (word_of_int (sint x) :: 64 word)"
    unfolding to_size_t_def by (simp only: scast_eq)
  also have "\<dots> = nat (take_bit 64 (sint x))"
    by (simp add: unat_eq_nat_uint uint_word_of_int_eq del: of_int_sint)
  finally show ?thesis .
qed

lemma to_size_t_nonneg: "0 \<le> sint x \<Longrightarrow> to_size_t x = nat (sint x)"
proof -
  assume nn: "0 \<le> sint x"
  have lt: "sint x < 2 ^ 64" using sint_less [of x] by simp
  have "take_bit 64 (sint x) = sint x"
    using nn lt by (simp add: take_bit_int_eq_self)
  then show ?thesis
    by (simp add: to_size_t_take_bit)
qed

lemma to_size_t_neg: "sint x < 0 \<Longrightarrow> int (to_size_t x) = 2 ^ 64 + sint x"
proof -
  assume neg: "sint x < 0"
  have ge: "- (2 ^ 64) \<le> sint x" using sint_greater_eq [of x] by simp
  have "take_bit 64 (sint x) = take_bit 64 (sint x + 2 ^ 64)"
    by (simp add: take_bit_eq_mod)
  also have "\<dots> = sint x + 2 ^ 64"
    using neg ge by (simp add: take_bit_int_eq_self)
  finally show ?thesis
    using ge by (simp add: to_size_t_take_bit)
qed

lemma sint_eq_5: "sint (x :: jint) = 5 \<longleftrightarrow> x = 5"
proof
  assume "sint x = 5"
  then have "word_of_int (sint x) = (word_of_int 5 :: jint)" by simp
  then show "x = 5" by simp
qed simp

lemma to_size_t_eq_5_nn: "0 \<le> sint x \<Longrightarrow> to_size_t x = 5 \<longleftrightarrow> x = 5"
  using sint_eq_5 [of x] by (auto simp: to_size_t_nonneg)

lemma to_size_t_5: "to_size_t x = 5 \<longleftrightarrow> x = 5"
proof (cases "0 \<le> sint x")
  case True
  then show ?thesis by (rule to_size_t_eq_5_nn)
next
  case False
  have "- (2 ^ 31) \<le> sint x" using sint_greater_eq [of x] by simp
  then have "int (to_size_t x) \<noteq> 5"
    using False by (simp add: to_size_t_neg)
  moreover have "x \<noteq> 5" using False by auto
  ultimately show ?thesis by auto
qed

section \<open>secure\_memzero and the loops in closed form\<close>

lemma memzero_loop_closed:
  "mem s a = Some bs \<Longrightarrow> i + n \<le> length bs \<Longrightarrow>
   memzero_loop a i n s =
     Some (s\<lparr>mem := (mem s)(a \<mapsto> take i bs @ replicate n 0 @ drop (i + n) bs)\<rparr>)"
proof (induction n arbitrary: i s bs)
  case 0
  then show ?case by (simp add: map_upd_triv)
next
  case (Suc n)
  have i: "i < length bs" using Suc.prems by simp
  let ?s = "s\<lparr>mem := (mem s)(a \<mapsto> bs[i := 0])\<rparr>"
  have st: "store8 a i 0 s = Some ?s"
    using Suc.prems i by (simp add: store8_def)
  have m: "mem ?s a = Some (bs[i := 0])" by simp
  have l: "Suc i + n \<le> length (bs[i := 0])" using Suc.prems by simp
  have tk: "take (Suc i) (bs[i := 0]) = take i bs @ [0]"
    using i by (simp add: take_Suc_conv_app_nth)
  have "memzero_loop a i (Suc n) s = memzero_loop a (Suc i) n ?s"
    using st by simp
  also have "\<dots> = Some (?s\<lparr>mem := (mem ?s)(a \<mapsto>
      take (Suc i) (bs[i := 0]) @ replicate n 0 @ drop (Suc i + n) (bs[i := 0]))\<rparr>)"
    by (rule Suc.IH [OF m l])
  also have "?s\<lparr>mem := (mem ?s)(a \<mapsto>
      take (Suc i) (bs[i := 0]) @ replicate n 0 @ drop (Suc i + n) (bs[i := 0]))\<rparr>
    = s\<lparr>mem := (mem s)(a \<mapsto> take i bs @ replicate (Suc n) 0 @ drop (i + Suc n) bs)\<rparr>"
    by (simp add: tk)
  finally show ?case .
qed

lemma secure_memzero_closed:
  "mem s a = Some bs \<Longrightarrow> 0 < n \<Longrightarrow> n \<le> length bs \<Longrightarrow>
   secure_memzero (Some a) n s =
     Some (s\<lparr>mem := (mem s)(a \<mapsto> replicate n 0 @ drop n bs),
             trace := trace s @ [Memzero a n]\<rparr>)"
  using memzero_loop_closed [of "record_event (Memzero a n) s" a bs 0 n]
  by (simp add: secure_memzero_def record_event_def)

lemma memzero_loop_Some_bound:
  "memzero_loop a i n s = Some s' \<Longrightarrow> 0 < n \<Longrightarrow>
   \<exists>bs. mem s a = Some bs \<and> i + n \<le> length bs"
proof (induction n arbitrary: i s)
  case 0
  then show ?case by simp
next
  case (Suc n)
  from Suc.prems obtain bs where bs: "mem s a = Some bs" "i < length bs"
    and rest: "memzero_loop a (Suc i) n (s\<lparr>mem := (mem s)(a \<mapsto> bs[i := 0])\<rparr>) = Some s'"
    by (auto simp: store8_def split: option.splits if_splits)
  show ?case
  proof (cases n)
    case 0
    then show ?thesis using bs by simp
  next
    case (Suc k)
    with Suc.IH [OF rest] bs show ?thesis by auto
  qed
qed

lemma load16_chars:
  "mem s a = Some bs \<Longrightarrow> i < length bs div 2 \<Longrightarrow>
   load16 s a i = Some (chars_of_bytes bs ! i)"
  by (simp add: load16_def load8_def chars_of_bytes_nth)

lemma narrow_loop_closed:
  "mem s src = Some sb \<Longrightarrow> mem s dst = Some db \<Longrightarrow> src \<noteq> dst \<Longrightarrow>
   k \<le> n \<Longrightarrow> n \<le> length sb div 2 \<Longrightarrow> n \<le> length db \<Longrightarrow>
   narrow_loop dst src (int k) (int n) s =
     Some (s\<lparr>mem := (mem s)(dst \<mapsto>
       take k db @ map lo_byte (drop k (take n (chars_of_bytes sb))) @ drop n db)\<rparr>)"
proof (induction "n - k" arbitrary: k s db)
  case 0
  then have "k = n" by simp
  then show ?case
    using 0 by (simp add: narrow_loop.simps map_upd_triv)
next
  case (Suc d)
  then have kn: "k < n" by simp
  let ?c = "chars_of_bytes sb ! k"
  let ?s = "s\<lparr>mem := (mem s)(dst \<mapsto> db[k := lo_byte ?c])\<rparr>"
  have ld: "load16 s src k = Some ?c"
    using Suc.prems kn by (simp add: load16_chars)
  have st: "store8 dst k (ucast ?c) s = Some ?s"
    using Suc.prems kn by (simp add: store8_def lo_byte_def)
  have step: "narrow_loop dst src (int k) (int n) s = narrow_loop dst src (int (Suc k)) (int n) ?s"
    using kn ld st by (subst narrow_loop.simps) (simp add: add.commute)
  have d: "d = n - Suc k" using Suc.hyps by simp
  have m1: "mem ?s src = Some sb" using Suc.prems by simp
  have m2: "mem ?s dst = Some (db[k := lo_byte ?c])" by simp
  have l: "n \<le> length (db[k := lo_byte ?c])" using Suc.prems by simp
  have sk: "Suc k \<le> n" using kn by simp
  have ih: "narrow_loop dst src (int (Suc k)) (int n) ?s =
     Some (?s\<lparr>mem := (mem ?s)(dst \<mapsto>
       take (Suc k) (db[k := lo_byte ?c]) @
       map lo_byte (drop (Suc k) (take n (chars_of_bytes sb))) @
       drop n (db[k := lo_byte ?c]))\<rparr>)"
    by (rule Suc.hyps(1) [OF d m1 m2 Suc.prems(3) sk Suc.prems(5) l])
  have kl: "k < length db" using kn Suc.prems by simp
  have tk: "take (Suc k) (db[k := lo_byte ?c]) = take k db @ [lo_byte ?c]"
    using kl by (simp add: take_Suc_conv_app_nth)
  have kc: "k < length (take n (chars_of_bytes sb))"
    using kn Suc.prems by (simp add: length_chars_of_bytes)
  have dr: "drop k (take n (chars_of_bytes sb)) = ?c # drop (Suc k) (take n (chars_of_bytes sb))"
    using kc kn by (simp flip: Cons_nth_drop_Suc)
  have dn: "drop n (db[k := lo_byte ?c]) = drop n db"
    using kn by simp
  show ?case
    unfolding step ih tk dr dn by simp
qed

lemma xor_loop_closed:
  "mem s dst = Some db \<Longrightarrow> i \<le> n \<Longrightarrow> n \<le> length db \<Longrightarrow>
   xor_loop dst enc key i n s =
     Some (s\<lparr>mem := (mem s)(dst \<mapsto>
       take i db @ map (\<lambda>j. (enc ! j) XOR key) [i..<n] @ drop n db)\<rparr>)"
proof (induction "n - i" arbitrary: i s db)
  case 0
  then have "i = n" by simp
  then show ?case
    using 0 by (simp add: xor_loop.simps map_upd_triv)
next
  case (Suc d)
  then have lt: "i < n" by simp
  let ?v = "(enc ! i) XOR key"
  let ?s = "s\<lparr>mem := (mem s)(dst \<mapsto> db[i := ?v])\<rparr>"
  have st: "store8 dst i ?v s = Some ?s"
    using Suc.prems lt by (simp add: store8_def)
  have step: "xor_loop dst enc key i n s = xor_loop dst enc key (Suc i) n ?s"
    using lt st by (subst xor_loop.simps) simp
  have d: "d = n - Suc i" using Suc.hyps by simp
  have m: "mem ?s dst = Some (db[i := ?v])" by simp
  have si: "Suc i \<le> n" using lt by simp
  have l: "n \<le> length (db[i := ?v])" using Suc.prems by simp
  have ih: "xor_loop dst enc key (Suc i) n ?s =
     Some (?s\<lparr>mem := (mem ?s)(dst \<mapsto>
       take (Suc i) (db[i := ?v]) @ map (\<lambda>j. (enc ! j) XOR key) [Suc i..<n] @
       drop n (db[i := ?v]))\<rparr>)"
    by (rule Suc.hyps(1) [OF d m si l])
  have il: "i < length db" using lt Suc.prems by simp
  have tk: "take (Suc i) (db[i := ?v]) = take i db @ [?v]"
    using il by (simp add: take_Suc_conv_app_nth)
  have up: "[i..<n] = i # [Suc i..<n]" using lt by (simp add: upt_conv_Cons)
  have dn: "drop n (db[i := ?v]) = drop n db" using lt by simp
  show ?case
    unfolding step ih tk dn by (simp add: up)
qed

lemma store16_closed:
  "mem s a = Some bs \<Longrightarrow> 2 * i + 1 < length bs \<Longrightarrow>
   store16 a i c s = Some (s\<lparr>mem := (mem s)(a \<mapsto> bs[2 * i := lo_byte c, 2 * i + 1 := hi_byte c])\<rparr>)"
  by (simp add: store16_def store8_def)

lemma widen_loop_closed:
  "mem s src = Some sb \<Longrightarrow> mem s dst = Some db \<Longrightarrow> src \<noteq> dst \<Longrightarrow>
   i \<le> n \<Longrightarrow> n \<le> length sb \<Longrightarrow> 2 * n \<le> length db \<Longrightarrow>
   widen_loop sg dst src i n s =
     Some (s\<lparr>mem := (mem s)(dst \<mapsto>
       take (2 * i) db @ bytes_of_chars (map (char_to_jchar sg) (drop i (take n sb))) @
       drop (2 * n) db)\<rparr>)"
proof (induction "n - i" arbitrary: i s db)
  case 0
  then have "i = n" by simp
  then show ?case
    using 0 by (simp add: widen_loop.simps map_upd_triv bytes_of_chars_def)
next
  case (Suc d)
  then have lt: "i < n" by simp
  let ?c = "char_to_jchar sg (sb ! i)"
  let ?db = "db[2 * i := lo_byte ?c, 2 * i + 1 := hi_byte ?c]"
  let ?s = "s\<lparr>mem := (mem s)(dst \<mapsto> ?db)\<rparr>"
  have ld: "load8 s src i = Some (sb ! i)"
    using Suc.prems lt by (simp add: load8_def)
  have st: "store16 dst i ?c s = Some ?s"
    using Suc.prems lt by (simp add: store16_closed)
  have step: "widen_loop sg dst src i n s = widen_loop sg dst src (Suc i) n ?s"
    using lt ld st by (subst widen_loop.simps) simp
  have d: "d = n - Suc i" using Suc.hyps by simp
  have m1: "mem ?s src = Some sb" using Suc.prems by simp
  have m2: "mem ?s dst = Some ?db" by simp
  have si: "Suc i \<le> n" using lt by simp
  have l: "2 * n \<le> length ?db" using Suc.prems by simp
  have ih: "widen_loop sg dst src (Suc i) n ?s =
     Some (?s\<lparr>mem := (mem ?s)(dst \<mapsto>
       take (2 * Suc i) ?db @ bytes_of_chars (map (char_to_jchar sg) (drop (Suc i) (take n sb))) @
       drop (2 * n) ?db)\<rparr>)"
    by (rule Suc.hyps(1) [OF d m1 m2 Suc.prems(3) si Suc.prems(5) l])
  have il: "2 * i + 1 < length db" using lt Suc.prems by simp
  have tk: "take (2 * Suc i) ?db = take (2 * i) db @ [lo_byte ?c, hi_byte ?c]"
    using il by (simp add: take_Suc_conv_app_nth nth_list_update)
  have kc: "i < length (take n sb)" using lt Suc.prems by simp
  have dr: "drop i (take n sb) = sb ! i # drop (Suc i) (take n sb)"
    using kc lt by (simp flip: Cons_nth_drop_Suc)
  have dn: "drop (2 * n) ?db = drop (2 * n) db" using lt by simp
  show ?case
    unfolding step ih tk dn dr by (simp add: bytes_of_chars_def)
qed

section \<open>The library calls in closed form\<close>

lemma secure_memzero_eq:
  "secure_memzero (Some a) n s =
     (if n = 0 then Some s
      else case mem s a of
             None \<Rightarrow> None
           | Some bs \<Rightarrow>
               if n \<le> length bs
               then Some (s\<lparr>mem := (mem s)(a \<mapsto> replicate n 0 @ drop n bs),
                            trace := trace s @ [Memzero a n]\<rparr>)
               else None)"
proof (cases "n = 0")
  case True
  then show ?thesis by (simp add: secure_memzero_def)
next
  case False
  then have pos: "0 < n" by simp
  let ?t = "record_event (Memzero a n) s"
  have mt: "mem ?t a = mem s a" by (simp add: record_event_def)
  show ?thesis
  proof (cases "\<exists>bs. mem s a = Some bs \<and> n \<le> length bs")
    case True
    then obtain bs where bs: "mem s a = Some bs" "n \<le> length bs" by blast
    show ?thesis
      using secure_memzero_closed [OF bs(1) pos bs(2)] bs pos by simp
  next
    case no: False
    have "memzero_loop a 0 n ?t = None"
    proof (cases "memzero_loop a 0 n ?t")
      case (Some s')
      from memzero_loop_Some_bound [OF Some pos] no mt show ?thesis by simp
    qed simp
    then show ?thesis
      using no pos by (auto simp: secure_memzero_def split: option.splits)
  qed
qed

lemma free_Blk:
  "free (Some (Blk k)) s =
     (case mem s (Blk k) of
        None \<Rightarrow> None
      | Some bs \<Rightarrow> Some (s\<lparr>mem := (mem s)(Blk k := None), trace := trace s @ [Free (Blk k)]\<rparr>))"
  by (simp add: free_def record_event_def split: option.splits)

lemma memcmp_bytes_eq:
  "length xs = length ys \<Longrightarrow> memcmp_bytes xs ys = 0 \<longleftrightarrow> xs = ys"
proof (induction xs ys rule: list_induct2')
  case (4 x xs y ys)
  have "(int (unat x) - int (unat y) = 0) = (unat x = unat y)"
    by presburger
  then have "int (unat x) - int (unat y) = 0 \<longleftrightarrow> x = y"
    using word_unat_eq_iff [of x y] by blast
  with 4 show ?case by simp
qed simp_all

lemma Release_eq:
  "ReleaseCharArrayElements (Some h) (Some a) JNI_ABORT s =
     (case mem s (JArr h) of
        None \<Rightarrow> None
      | Some bs \<Rightarrow>
          if a = JArr h then Some (s\<lparr>trace := trace s @ [ReleaseElements h a JNI_ABORT]\<rparr>)
          else
            (case a of
               JArr k \<Rightarrow> None
             | Blk n \<Rightarrow>
                 (case mem s a of
                    None \<Rightarrow> None
                  | Some cs \<Rightarrow>
                      Some (s\<lparr>mem := (mem s)(a := None),
                              trace := trace s @ [ReleaseElements h a JNI_ABORT]\<rparr>))))"
  by (simp add: ReleaseCharArrayElements_def record_event_def split: option.splits addr.splits)

lemma xor_loop_0:
  assumes "mem s dst = Some db" "n = length enc" "n \<le> length db"
  shows "xor_loop dst enc key 0 n s =
     Some (s\<lparr>mem := (mem s)(dst \<mapsto> map (\<lambda>b. b XOR key) enc @ drop n db)\<rparr>)"
proof -
  have "map (\<lambda>j. (enc ! j) XOR key) [0..<length enc] = map (\<lambda>b. b XOR key) enc"
    by (rule nth_equalityI) simp_all
  then show ?thesis
    using xor_loop_closed [OF assms(1) _ assms(3), of 0 enc key] assms(2) by simp
qed

lemma length_ENC [simp]: "length ENC_USER = 5" "length ENC_PASS = 5"
  by (simp_all add: ENC_USER_def ENC_PASS_def)

lemma size_mul_2: "0 \<le> sint (x :: jint) \<Longrightarrow> size_mul (nat (sint x)) 2 = 2 * nat (sint x)"
proof -
  assume nn: "0 \<le> sint x"
  have "sint x < 2 ^ 31" using sint_less [of x] by simp
  then have "nat (sint x) * 2 < 2 ^ 64" using nn by simp
  then show ?thesis
    using nn by (simp add: size_mul_def)
qed

lemma twice_le: "n \<le> L div 2 \<Longrightarrow> 2 * n \<le> (L :: nat)"
  by simp

lemma secure_memzero_eq':
  "secure_memzero (Some a) n s =
     (case mem s a of
        None \<Rightarrow> if n = 0 then Some s else None
      | Some bs \<Rightarrow>
          if n \<le> length bs
          then Some (s\<lparr>mem := (mem s)(a \<mapsto> replicate n 0 @ drop n bs),
                       trace := trace s @ (if n = 0 then [] else [Memzero a n])\<rparr>)
          else None)"
  by (cases "n = 0") (auto simp: secure_memzero_eq map_upd_triv split: option.splits)

lemma memcmp_eq:
  "memcmp a b n s =
     (case mem s a of
        None \<Rightarrow> None
      | Some xs \<Rightarrow>
          (case mem s b of
             None \<Rightarrow> None
           | Some ys \<Rightarrow>
               if n \<le> length xs \<and> n \<le> length ys
               then Some (memcmp_bytes (take n xs) (take n ys),
                          s\<lparr>trace := trace s @ [Memcmp a b n]\<rparr>)
               else None))"
  by (simp add: memcmp_def record_event_def split: option.splits)

lemma compare_credentials_eq:
  assumes "mem s ub = Some xs" "mem s du = Some plain_user"
    "mem s pb = Some ys" "mem s dp = Some plain_pass"
    "length xs = to_size_t userLen" "length ys = to_size_t passLen"
  shows "compare_credentials ub du pb dp userLen passLen s =
     Some (userLen = 5 \<and> passLen = 5 \<and> xs = plain_user \<and> ys = plain_pass,
       s\<lparr>trace := trace s @
         (if userLen = 5 \<and> passLen = 5
          then (if xs = plain_user then [Memcmp ub du 5, Memcmp pb dp 5] else [Memcmp ub du 5])
          else [])\<rparr>)"
proof -
  have lp: "length plain_user = 5" "length plain_pass = 5"
    by (simp_all add: plain_user_def plain_pass_def)
  have t5: "to_size_t 5 = 5" by (simp add: to_size_t_5)
  show ?thesis
    using assms lp
    by (auto simp: compare_credentials_def memcmp_eq to_size_t_5 t5 memcmp_bytes_eq)
qed

lemma length_plain [simp]: "length plain_user = 5" "length plain_pass = 5"
  by (simp_all add: plain_user_def plain_pass_def)

lemma length_ENC_FLAG [simp]: "length ENC_FLAG = 25"
  by (simp add: ENC_FLAG_def)

lemma length_flag_plain [simp]: "length flag_plain = 25"
  by (simp add: flag_plain_def)

lemma widen_loop_0:
  assumes "mem s src = Some sb" "mem s dst = Some db" "src \<noteq> dst"
    "n \<le> length sb" "2 * n \<le> length db"
  shows "widen_loop sg dst src 0 n s =
     Some (s\<lparr>mem := (mem s)(dst \<mapsto>
       bytes_of_chars (map (char_to_jchar sg) (take n sb)) @ drop (2 * n) db)\<rparr>)"
  using widen_loop_closed [OF assms(1,2,3) _ assms(4,5), of 0 sg] by simp

lemma Release_0_eq:
  "ReleaseCharArrayElements (Some h) (Some a) MODE_0 s =
     (case mem s (JArr h) of
        None \<Rightarrow> None
      | Some bs \<Rightarrow>
          if a = JArr h then Some (s\<lparr>trace := trace s @ [ReleaseElements h a MODE_0]\<rparr>)
          else
            (case a of
               JArr k \<Rightarrow> None
             | Blk n \<Rightarrow>
                 (case mem s a of
                    None \<Rightarrow> None
                  | Some cs \<Rightarrow>
                      Some (s\<lparr>mem := (mem s)(JArr h \<mapsto> cs, a := None),
                              trace := trace s @ [ReleaseElements h a MODE_0]\<rparr>))))"
  by (simp add: ReleaseCharArrayElements_def record_event_def split: option.splits addr.splits)

section \<open>The cleanup of checkCredentials never fails\<close>

lemma has_bytes_cong: "blen s' = blen s \<Longrightarrow> has_bytes s' a n = has_bytes s a n"
  by (simp add: has_bytes_def)

lemma secure_memzero_blen:
  assumes "has_bytes s a n"
  shows "\<exists>s'. secure_memzero (Some a) n s = Some s' \<and> blen s' = blen s"
proof -
  from assms obtain bs where bs: "mem s a = Some bs" "n \<le> length bs"
    by (auto simp: has_bytes_def blen_def split: option.splits)
  then show ?thesis
    by (auto simp: secure_memzero_eq' blen_def fun_eq_iff)
qed

lemma free_blen:
  assumes "has_bytes s (Blk k) 0"
  shows "\<exists>s'. free (Some (Blk k)) s = Some s' \<and> blen s' = (blen s)(Blk k := None)"
proof -
  from assms obtain bs where bs: "mem s (Blk k) = Some bs"
    by (auto simp: has_bytes_def blen_def split: option.splits)
  then show ?thesis
    by (auto simp: free_Blk blen_def fun_eq_iff)
qed

lemma release_blen:
  assumes "has_bytes s (JArr h) 0" "has_bytes s a 0" "a = JArr h \<or> is_blk a"
  shows "\<exists>s'. ReleaseCharArrayElements (Some h) (Some a) JNI_ABORT s = Some s' \<and>
     blen s' = (if a = JArr h then blen s else (blen s)(a := None))"
proof -
  from assms obtain bs cs where bs: "mem s (JArr h) = Some bs" "mem s a = Some cs"
    by (auto simp: has_bytes_def blen_def split: option.splits)
  show ?thesis
  proof (cases "a = JArr h")
    case True
    then show ?thesis using bs by (simp add: Release_eq blen_def fun_eq_iff)
  next
    case False
    with assms(3) obtain k where "a = Blk k" by (cases a) (auto simp: is_blk_def)
    then show ?thesis using bs by (simp add: Release_eq blen_def fun_eq_iff)
  qed
qed

lemma wipe_free_locked_ok:
  assumes "case lk of None \<Rightarrow> True | Some a \<Rightarrow> is_blk a \<and> has_bytes s a 1024"
  shows "\<exists>s'. wipe_free_locked lk s = Some s'"
proof (cases lk)
  case None
  then show ?thesis by (simp add: wipe_free_locked_def)
next
  case (Some a)
  with assms obtain k where a: "a = Blk k" and hb: "has_bytes s (Blk k) 1024"
    by (cases a) (auto simp: is_blk_def)
  from secure_memzero_blen [OF hb] obtain s1 where
    s1: "secure_memzero (Some (Blk k)) 1024 s = Some s1" "blen s1 = blen s" by blast
  have "has_bytes s1 (Blk k) 0"
    using hb s1(2) by (simp add: has_bytes_def split: option.splits)
  from free_blen [OF this] obtain s2 where "free (Some (Blk k)) s1 = Some s2" by blast
  then show ?thesis
    using Some a s1 by (simp add: wipe_free_locked_def)
qed

lemma has_bytes_0: "has_bytes s a n \<Longrightarrow> has_bytes s a 0"
  by (simp add: has_bytes_def split: option.splits)

lemma cc_cleanup_ok:
  assumes ju: "has_bytes s (JArr hu) 0" and jp: "has_bytes s (JArr hp) 0"
    and uc: "has_bytes s uc (size_mul (to_size_t userLen) 2)"
    and pc: "has_bytes s pc (size_mul (to_size_t passLen) 2)"
    and b1: "has_bytes s (Blk k1) (to_size_t userLen)"
    and b2: "has_bytes s (Blk k2) (to_size_t passLen)"
    and du: "has_bytes s du (length ENC_USER)" and dp: "has_bytes s dp (length ENC_PASS)"
    and di: "k1 \<noteq> k2" "uc \<noteq> Blk k1" "uc \<noteq> Blk k2" "pc \<noteq> Blk k1" "pc \<noteq> Blk k2"
    and uk: "uc = JArr hu \<or> is_blk uc" and pk: "pc = JArr hp \<or> is_blk pc"
    and al: "uc = pc \<longrightarrow> uc = JArr hu"
    and lk: "case lk of None \<Rightarrow> True
             | Some a \<Rightarrow> is_blk a \<and> a \<noteq> Blk k1 \<and> a \<noteq> Blk k2 \<and> a \<noteq> uc \<and> a \<noteq> pc \<and>
                 has_bytes s a 1024"
  shows "\<exists>s'. cc_cleanup (Some hu) (Some hp) userLen passLen lk uc pc (Blk k1) (Blk k2) du dp s
            = Some s'"
proof -
  from secure_memzero_blen [OF du] obtain s8 where
    s8: "secure_memzero (Some du) (length ENC_USER) s = Some s8" and l8: "blen s8 = blen s"
    by blast
  have "has_bytes s8 dp (length ENC_PASS)" using dp by (simp add: has_bytes_cong [OF l8])
  from secure_memzero_blen [OF this] obtain s9 where
    s9: "secure_memzero (Some dp) (length ENC_PASS) s8 = Some s9" and l9: "blen s9 = blen s"
    using l8 by auto
  have "has_bytes s9 (Blk k1) (to_size_t userLen)" using b1 by (simp add: has_bytes_cong [OF l9])
  from secure_memzero_blen [OF this] obtain s10 where
    s10: "secure_memzero (Some (Blk k1)) (to_size_t userLen) s9 = Some s10"
    and l10: "blen s10 = blen s"
    using l9 by auto
  have "has_bytes s10 (Blk k2) (to_size_t passLen)" using b2 by (simp add: has_bytes_cong [OF l10])
  from secure_memzero_blen [OF this] obtain s11 where
    s11: "secure_memzero (Some (Blk k2)) (to_size_t passLen) s10 = Some s11"
    and l11: "blen s11 = blen s"
    using l10 by auto
  have "has_bytes s11 (Blk k1) 0"
    using has_bytes_0 [OF b1] by (simp add: has_bytes_cong [OF l11])
  from free_blen [OF this] obtain s12 where
    s12: "free (Some (Blk k1)) s11 = Some s12" and l12: "blen s12 = (blen s)(Blk k1 := None)"
    using l11 by auto
  have "has_bytes s12 (Blk k2) 0"
    using has_bytes_0 [OF b2] di(1) by (simp add: has_bytes_def l12)
  from free_blen [OF this] obtain s13 where
    s13: "free (Some (Blk k2)) s12 = Some s13"
    and l13: "blen s13 = (blen s)(Blk k1 := None, Blk k2 := None)"
    using l12 by auto
  have "has_bytes s13 uc (size_mul (to_size_t userLen) 2)"
    using uc di by (simp add: has_bytes_def l13)
  from secure_memzero_blen [OF this] obtain s14 where
    s14: "secure_memzero (Some uc) (size_mul (to_size_t userLen) 2) s13 = Some s14"
    and l14: "blen s14 = (blen s)(Blk k1 := None, Blk k2 := None)"
    using l13 by auto
  have "has_bytes s14 pc (size_mul (to_size_t passLen) 2)"
    using pc di by (simp add: has_bytes_def l14)
  from secure_memzero_blen [OF this] obtain s15 where
    s15: "secure_memzero (Some pc) (size_mul (to_size_t passLen) 2) s14 = Some s15"
    and l15: "blen s15 = (blen s)(Blk k1 := None, Blk k2 := None)"
    using l14 by auto
  have r1: "has_bytes s15 (JArr hu) 0" "has_bytes s15 uc 0"
    using ju has_bytes_0 [OF uc] di by (simp_all add: has_bytes_def l15)
  from release_blen [OF r1 uk] obtain s16 where
    s16: "ReleaseCharArrayElements (Some hu) (Some uc) JNI_ABORT s15 = Some s16"
    and l16: "blen s16 = (if uc = JArr hu then blen s15 else (blen s15)(uc := None))"
    by blast
  have ne: "uc \<noteq> JArr hu \<Longrightarrow> uc \<noteq> pc \<and> uc \<noteq> JArr hp"
    using al uk by (auto simp: is_blk_def)
  have r2: "has_bytes s16 (JArr hp) 0" "has_bytes s16 pc 0"
    using jp has_bytes_0 [OF pc] di ne by (auto simp: has_bytes_def l16 l15)
  from release_blen [OF r2 pk] obtain s17 where
    s17: "ReleaseCharArrayElements (Some hp) (Some pc) JNI_ABORT s16 = Some s17"
    and l17: "blen s17 = (if pc = JArr hp then blen s16 else (blen s16)(pc := None))"
    by blast
  have "case lk of None \<Rightarrow> True | Some a \<Rightarrow> is_blk a \<and> has_bytes s17 a 1024"
    using lk by (auto simp: has_bytes_def l17 l16 l15 is_blk_def split: option.splits)
  from wipe_free_locked_ok [OF this] obtain s18 where
    s18: "wipe_free_locked lk s17 = Some s18" by blast
  show ?thesis
    by (simp add: cc_cleanup_def s8 s9 s10 s11 s12 s13 s14 s15 s16 s17 s18 del: length_ENC)
qed

section \<open>The result of checkCredentials\<close>

lemma sint_to_size_t: "0 \<le> sint x \<Longrightarrow> sint x = int (to_size_t x)"
  by (simp add: to_size_t_nonneg)

lemma size_mul_to_size_t: "0 \<le> sint x \<Longrightarrow> size_mul (to_size_t x) 2 = 2 * to_size_t x"
  using size_mul_2 [of x] by (simp add: to_size_t_nonneg)

lemma narrow_loop_nat:
  assumes "mem s src = Some sb" "mem s dst = Some db" "src \<noteq> dst"
    "2 * n \<le> length sb" "n \<le> length db"
  shows "narrow_loop dst src 0 (int n) s =
     Some (s\<lparr>mem := (mem s)(dst \<mapsto>
       map lo_byte (take n (chars_of_bytes sb)) @ drop n db)\<rparr>)"
proof -
  have "n \<le> length sb div 2" using assms(4) by simp
  from narrow_loop_closed [OF assms(1,2,3) _ this assms(5), of 0] show ?thesis by simp
qed

lemma below_neq: "below s a \<Longrightarrow> next_blk s \<le> k \<Longrightarrow> a \<noteq> Blk k"
  by (auto simp: below_def)

lemma check_and_cleanup_result:
  assumes ju: "has_bytes s (JArr hu) 0" and jp: "has_bytes s (JArr hp) 0"
    and uc: "mem s uc = Some ub" and pc: "mem s pc = Some pb"
    and b1: "mem s (Blk k1) = Some d1" "length d1 = to_size_t userLen"
    and b2: "mem s (Blk k2) = Some d2" "length d2 = to_size_t passLen"
    and ln: "0 \<le> sint userLen" "2 * to_size_t userLen \<le> length ub"
      "0 \<le> sint passLen" "2 * to_size_t passLen \<le> length pb"
    and di: "k1 \<noteq> k2" "uc \<noteq> Blk k1" "uc \<noteq> Blk k2" "pc \<noteq> Blk k1" "pc \<noteq> Blk k2"
    and fr: "k1 < next_blk s" "k2 < next_blk s" "below s uc" "below s pc"
    and uk: "uc = JArr hu \<or> is_blk uc" and pk: "pc = JArr hp \<or> is_blk pc"
    and al: "uc = pc \<longrightarrow> uc = JArr hu"
    and lk: "case lk of None \<Rightarrow> True
             | Some a \<Rightarrow> is_blk a \<and> a \<noteq> Blk k1 \<and> a \<noteq> Blk k2 \<and> a \<noteq> uc \<and> a \<noteq> pc \<and>
                 below s a \<and> has_bytes s a 1024"
  shows "map_option fst
       (check_and_cleanup (Some hu) (Some hp) userLen passLen lk uc pc (Blk k1) (Blk k2) s) =
     Some (userLen = 5 \<and> passLen = 5 \<and>
           map lo_byte (take (to_size_t userLen) (chars_of_bytes ub)) = plain_user \<and>
           map lo_byte (take (to_size_t passLen) (chars_of_bytes pb)) = plain_pass)"
proof -
  define n where "n = next_blk s"
  define xs where "xs = map lo_byte (take (to_size_t userLen) (chars_of_bytes ub))"
  define ys where "ys = map lo_byte (take (to_size_t passLen) (chars_of_bytes pb))"
  have nq: "k1 \<noteq> n" "k1 \<noteq> Suc n" "k2 \<noteq> n" "k2 \<noteq> Suc n"
    using fr(1,2) by (simp_all add: n_def)
  have aq: "uc \<noteq> Blk n" "uc \<noteq> Blk (Suc n)" "pc \<noteq> Blk n" "pc \<noteq> Blk (Suc n)"
    using below_neq [OF fr(3)] below_neq [OF fr(4)] by (simp_all add: n_def)
  have lxs: "length xs = to_size_t userLen" and lys: "length ys = to_size_t passLen"
    using ln(2,4) by (simp_all add: xs_def ys_def length_chars_of_bytes)
  \<comment> \<open>step 3\<close>
  define s1 where "s1 = s\<lparr>mem := (mem s)(Blk k1 \<mapsto> xs)\<rparr>"
  have e1: "narrow_loop (Blk k1) uc 0 (sint userLen) s = Some s1"
    using narrow_loop_nat [OF uc b1(1) di(2) ln(2)] b1(2)
    by (simp add: sint_to_size_t [OF ln(1)] s1_def xs_def)
  have m1: "mem s1 pc = Some pb" "mem s1 (Blk k2) = Some d2"
    using pc b2(1) di by (simp_all add: s1_def)
  define s2 where "s2 = s1\<lparr>mem := (mem s1)(Blk k2 \<mapsto> ys)\<rparr>"
  have e2: "narrow_loop (Blk k2) pc 0 (sint passLen) s1 = Some s2"
    using narrow_loop_nat [OF m1(1) m1(2) di(5) ln(4)] b2(2)
    by (simp add: sint_to_size_t [OF ln(3)] s2_def ys_def)
  \<comment> \<open>step 4\<close>
  define s3 where "s3 = s2\<lparr>mem := (mem s2)(Blk n \<mapsto> uninitialised (garbage s2) (length ENC_USER)),
                          next_blk := Suc n\<rparr>"
  have e3: "stack_array (length ENC_USER) s2 = (Blk n, s3)"
    by (simp add: stack_array_def s3_def s2_def s1_def n_def)
  define s4 where "s4 = s3\<lparr>mem := (mem s3)(Blk (Suc n) \<mapsto> uninitialised (garbage s3) (length ENC_PASS)),
                          next_blk := Suc (Suc n)\<rparr>"
  have e4: "stack_array (length ENC_PASS) s3 = (Blk (Suc n), s4)"
    by (simp add: stack_array_def s4_def s3_def)
  define s5 where "s5 = s4\<lparr>mem := (mem s4)(Blk n \<mapsto> plain_user)\<rparr>"
  have e5: "xor_loop (Blk n) ENC_USER XOR_KEY 0 (length ENC_USER) s4 = Some s5"
    by (subst xor_loop_0 [where db = "uninitialised (garbage s2) (length ENC_USER)"])
       (simp_all add: s4_def s3_def s5_def plain_user_def)
  define s6 where "s6 = s5\<lparr>mem := (mem s5)(Blk (Suc n) \<mapsto> plain_pass)\<rparr>"
  have e6: "xor_loop (Blk (Suc n)) ENC_PASS XOR_KEY 0 (length ENC_PASS) s5 = Some s6"
    by (subst xor_loop_0 [where db = "uninitialised (garbage s3) (length ENC_PASS)"])
       (simp_all add: s5_def s4_def s6_def plain_pass_def)
  have m6: "mem s6 = (mem s)(Blk k1 \<mapsto> xs, Blk k2 \<mapsto> ys, Blk n \<mapsto> plain_user,
      Blk (Suc n) \<mapsto> plain_pass)"
    by (simp add: s6_def s5_def s4_def s3_def s2_def s1_def)
  \<comment> \<open>step 5\<close>
  define tr where "tr = (if userLen = 5 \<and> passLen = 5
          then (if xs = plain_user then [Memcmp (Blk k1) (Blk n) 5, Memcmp (Blk k2) (Blk (Suc n)) 5]
                else [Memcmp (Blk k1) (Blk n) 5])
          else [])"
  define s7 where "s7 = s6\<lparr>trace := trace s6 @ tr\<rparr>"
  have c6: "mem s6 (Blk k1) = Some xs" "mem s6 (Blk n) = Some plain_user"
    "mem s6 (Blk k2) = Some ys" "mem s6 (Blk (Suc n)) = Some plain_pass"
    using nq di(1) by (simp_all add: m6)
  have e7: "compare_credentials (Blk k1) (Blk n) (Blk k2) (Blk (Suc n)) userLen passLen s6 =
      Some (userLen = 5 \<and> passLen = 5 \<and> xs = plain_user \<and> ys = plain_pass, s7)"
    using compare_credentials_eq [OF c6 lxs lys] by (simp add: s7_def tr_def)
  \<comment> \<open>step 6\<close>
  have m7: "mem s7 = mem s6" by (simp add: s7_def)
  have h7: "has_bytes s7 (JArr hu) 0" "has_bytes s7 (JArr hp) 0"
    using ju jp by (simp_all add: has_bytes_def blen_def m7 m6)
  have u7: "has_bytes s7 uc (size_mul (to_size_t userLen) 2)"
    "has_bytes s7 pc (size_mul (to_size_t passLen) 2)"
    using uc pc di aq ln
    by (simp_all add: has_bytes_def blen_def m7 m6 size_mul_to_size_t)
  have b7: "has_bytes s7 (Blk k1) (to_size_t userLen)" "has_bytes s7 (Blk k2) (to_size_t passLen)"
    "has_bytes s7 (Blk n) (length ENC_USER)" "has_bytes s7 (Blk (Suc n)) (length ENC_PASS)"
    using c6 lxs lys by (simp_all add: has_bytes_def blen_def m7)
  have k7: "case lk of None \<Rightarrow> True
             | Some a \<Rightarrow> is_blk a \<and> a \<noteq> Blk k1 \<and> a \<noteq> Blk k2 \<and> a \<noteq> uc \<and> a \<noteq> pc \<and>
                 has_bytes s7 a 1024"
  proof (cases lk)
    case None
    then show ?thesis by simp
  next
    case (Some a)
    with lk have a: "is_blk a" "a \<noteq> Blk k1" "a \<noteq> Blk k2" "a \<noteq> uc" "a \<noteq> pc"
      "below s a" "has_bytes s a 1024" by simp_all
    have "a \<noteq> Blk n" "a \<noteq> Blk (Suc n)"
      using below_neq [OF a(6)] by (simp_all add: n_def)
    then have "has_bytes s7 a 1024"
      using a by (simp add: has_bytes_def blen_def m7 m6)
    then show ?thesis using Some a by simp
  qed
  from cc_cleanup_ok [OF h7 u7 b7 di uk pk al k7] obtain s18 where
    e18: "cc_cleanup (Some hu) (Some hp) userLen passLen lk uc pc (Blk k1) (Blk k2)
            (Blk n) (Blk (Suc n)) s7 = Some s18" by blast
  show ?thesis
    by (simp add: check_and_cleanup_def e1 e2 e3 e4 e5 e6 e7 e18 xs_def ys_def del: length_ENC)
qed

lemma has_bytes_simps:
  "has_bytes s a n = (case mem s a of None \<Rightarrow> False | Some bs \<Rightarrow> n \<le> length bs)"
  by (simp add: has_bytes_def blen_def split: option.splits)

lemma is_blk_simps [simp]: "is_blk (Blk k)" "\<not> is_blk (JArr h)"
  by (simp_all add: is_blk_def)

lemma below_simps [simp]: "below s (Blk k) = (k < next_blk s)" "below s (JArr h)"
  by (simp_all add: below_def)

lemma free_None: "free None s = Some s"
  by (simp add: free_def)

lemma checkCredentials_result:
  assumes "mem s (JArr hu) = Some ub" "mem s (JArr hp) = Some pb"
    "0 \<le> sint userLen" "2 * to_size_t userLen \<le> length ub"
    "0 \<le> sint passLen" "2 * to_size_t passLen \<le> length pb"
  shows "map_option fst (checkCredentials env (Some hu) (Some hp) userLen passLen s) =
     Some (user_get env \<noteq> GET_FAILS \<and> pass_get env \<noteq> GET_FAILS \<and>
           userBytes_ok env \<and> passBytes_ok env \<and> userLen = 5 \<and> passLen = 5 \<and>
           map lo_byte (take (to_size_t userLen) (chars_of_bytes ub)) = plain_user \<and>
           map lo_byte (take (to_size_t passLen) (chars_of_bytes pb)) = plain_pass)"
  using assms
  apply (cases "user_get env"; cases "pass_get env"; cases "locked_ok env";
         cases "userBytes_ok env"; cases "passBytes_ok env")
  apply (simp_all split del: if_split add: checkCredentials_def malloc_def mlock_def
      GetCharArrayElements_def record_event_def 
      secure_memzero_eq' free_Blk free_None Release_eq wipe_free_locked_def
      check_and_cleanup_result has_bytes_simps)
  done

section \<open>The effect of decryptFlagIntoBuffer and wipeFlagBuffer\<close>

lemma jchar_of_0: "jchar_of 0 0 = 0"
  by (simp add: jchar_of_def)

lemma chars_of_bytes_replicate:
  "chars_of_bytes (replicate (2 * k) 0 @ bs) = replicate k 0 @ chars_of_bytes bs"
  by (induction k) (simp_all add: jchar_of_0)

lemma chars_of_bytes_drop: "chars_of_bytes (drop (2 * k) bs) = drop k (chars_of_bytes bs)"
  apply (induction bs arbitrary: k rule: chars_of_bytes.induct)
  subgoal for lo hi bs k by (cases k) simp_all
  subgoal by simp
  subgoal for v k by (cases k) simp_all
  done

lemma size_mul_small: "n < 2 ^ 63 \<Longrightarrow> size_mul n 2 = 2 * n"
  by (simp add: size_mul_def)

lemma map_option_SomeD: "map_option f x = Some y \<Longrightarrow> \<exists>v. x = Some v \<and> f v = y"
  by (cases x) auto

lemma flag_plain_value:
  "flag_plain = [0x46, 0x4C, 0x41, 0x47, 0x7B, 0x53, 0x53, 0x53, 0x75, 0x70, 0x65, 0x72, 0x5F,
                 0x53, 0x65, 0x63, 0x72, 0x65, 0x74, 0x5F, 0x46, 0x6C, 0x61, 0x67, 0x7D]"
  by (simp add: flag_plain_def ENC_FLAG_def FLAG_KEY_def)

lemma char_to_jchar_flag: "map (char_to_jchar sg) flag_plain = map ucast flag_plain"
  by (cases sg) (simp_all add: flag_plain_value char_to_jchar_def)

lemma plain_user_value: "plain_user = [0x61, 0x64, 0x6D, 0x69, 0x6E]"
  by (simp add: plain_user_def ENC_USER_def XOR_KEY_def)

lemma plain_pass_value: "plain_pass = [0x61, 0x64, 0x6D, 0x69, 0x6E]"
  by (simp add: plain_pass_def ENC_PASS_def XOR_KEY_def)

lemma df_success:
  assumes "mem s (JArr h) = Some bs" "25 \<le> length bs div 2"
    "buffer_get env \<noteq> GET_FAILS" "tempDecrypt_ok env"
  shows "map_option (\<lambda>s'. (mem s' (JArr h), pending_exception s'))
       (decryptFlagIntoBuffer env (Some h) s) =
     Some (Some (bytes_of_chars (map (char_to_jchar (char_signed env)) flag_plain) @ drop 50 bs),
           pending_exception s)"
  using assms
  apply (cases "buffer_get env"; cases "lockedMem_ok env")
  apply (simp_all split del: if_split add: decryptFlagIntoBuffer_def decrypt_and_copy_def
      malloc_def mlock_def munlock_def GetCharArrayElements_def GetArrayLength_def
      record_event_def FLAG_LEN_def xor_loop_0 widen_loop_0 secure_memzero_eq' free_Blk
      Release_eq Release_0_eq flag_plain_def [symmetric] twice_le)
  done

lemma df_other:
  assumes "mem s (JArr h) = Some bs"
    "length bs div 2 < 25 \<or> buffer_get env = GET_FAILS \<or> \<not> tempDecrypt_ok env"
  shows "map_option (\<lambda>s'. (mem s' (JArr k), pending_exception s'))
       (decryptFlagIntoBuffer env (Some h) s) =
     Some (mem s (JArr k), pending_exception s)"
  using assms
  apply (cases "buffer_get env"; cases "lockedMem_ok env"; cases "tempDecrypt_ok env";
         cases "length bs div 2 < 25")
  apply (simp_all split del: if_split add: decryptFlagIntoBuffer_def
      malloc_def mlock_def munlock_def GetCharArrayElements_def GetArrayLength_def
      record_event_def FLAG_LEN_def free_Blk Release_eq)
  done

lemma wipe_result:
  assumes "mem s (JArr h) = Some bs" "length bs div 2 < 2 ^ 63"
  shows "map_option (\<lambda>s'. (mem s' (JArr k), pending_exception s')) (wipeFlagBuffer g (Some h) s) =
     Some (if g = GET_DIRECT \<and> k = h
           then Some (replicate (2 * (length bs div 2)) 0 @ drop (2 * (length bs div 2)) bs)
           else mem s (JArr k), pending_exception s)"
  using assms
  apply (cases g; cases "k = h")
  apply (simp_all split del: if_split add: wipeFlagBuffer_def GetCharArrayElements_def
      GetArrayLength_def record_event_def secure_memzero_eq' Release_eq size_mul_small)
  done

section \<open>Arrays of the Java caller\<close>

lemma mem_with_array:
  "mem (with_array h cs s) a = (if a = JArr h then Some (bytes_of_chars cs) else mem s a)"
  by (simp add: with_array_def)

lemma chars_of_bytes_of_chars_id: "chars_of_bytes (bytes_of_chars cs) = cs"
  using chars_of_bytes_of_chars [of cs "[]"] by simp

lemma java_array_with_array:
  "java_array (with_array h cs s) k = (if k = h then Some cs else java_array s k)"
  by (simp add: java_array_def mem_with_array chars_of_bytes_of_chars_id)

lemma java_array_mem:
  "java_array s h = Some cs \<Longrightarrow>
   \<exists>bs. mem s (JArr h) = Some bs \<and> chars_of_bytes bs = cs \<and> length cs = length bs div 2"
  by (auto simp: java_array_def length_chars_of_bytes)

section \<open>checkCredentials on the caller's arrays, and sample runs\<close>

lemma to_size_t_5_val: "to_size_t 5 = 5"
  by (simp add: to_size_t_5)

lemma checkCredentials_java:
  assumes "java_array s hu = Some us" and "java_array s hp = Some ps"
    and "0 \<le> sint userLen" and "nat (sint userLen) \<le> length us"
    and "0 \<le> sint passLen" and "nat (sint passLen) \<le> length ps"
  shows "map_option fst (checkCredentials env (Some hu) (Some hp) userLen passLen s) =
     Some (user_get env \<noteq> GET_FAILS \<and> pass_get env \<noteq> GET_FAILS \<and>
           userBytes_ok env \<and> passBytes_ok env \<and> userLen = 5 \<and> passLen = 5 \<and>
           take 5 (map lo_byte us) = plain_user \<and> take 5 (map lo_byte ps) = plain_pass)"
proof -
  from java_array_mem [OF assms(1)] obtain ub where
    ub: "mem s (JArr hu) = Some ub" "chars_of_bytes ub = us" "length us = length ub div 2"
    by blast
  from java_array_mem [OF assms(2)] obtain pb where
    pb: "mem s (JArr hp) = Some pb" "chars_of_bytes pb = ps" "length ps = length pb div 2"
    by blast
  have lu: "2 * to_size_t userLen \<le> length ub"
    using assms(3,4) ub(3) by (simp add: to_size_t_nonneg)
  have lp: "2 * to_size_t passLen \<le> length pb"
    using assms(5,6) pb(3) by (simp add: to_size_t_nonneg)
  have "(userLen = 5 \<and> passLen = 5 \<and>
         map lo_byte (take (to_size_t userLen) us) = plain_user \<and>
         map lo_byte (take (to_size_t passLen) ps) = plain_pass) =
        (userLen = 5 \<and> passLen = 5 \<and>
         take 5 (map lo_byte us) = plain_user \<and> take 5 (map lo_byte ps) = plain_pass)"
    by (auto simp: to_size_t_5_val take_map)
  then show ?thesis
    using checkCredentials_result [OF ub(1) pb(1) assms(3) lu assms(5) lp, of env] ub(2) pb(2)
    by simp
qed

lemma sample_arrays:
  "java_array (with_array 1 admin_chars (with_array 0 cs empty_world)) 0 = Some cs"
  "java_array (with_array 1 admin_chars (with_array 0 cs empty_world)) 1 = Some admin_chars"
  by (simp_all add: java_array_with_array)

lemma sint_5: "0 \<le> sint (5 :: jint)" "nat (sint (5 :: jint)) = 5"
  by simp_all

lemma lo_admin:
  "take 5 (map lo_byte admin_chars) = plain_user" "take 5 (map lo_byte admin_chars) = plain_pass"
  "take 5 (map lo_byte admin_high) = plain_user"
  by (simp_all add: admin_chars_def admin_high_def plain_user_value plain_pass_value lo_byte_def)


section \<open>The claims\<close>

subsection \<open>C1: what checkCredentials accepts\<close>

text \<open>
  C1, as amended. For arrays that hold at least \<open>userLen\<close> and \<open>passLen\<close> characters
  (both lengths non-negative), \<^verbatim>\<open>checkCredentials\<close> returns, and it returns
  \<^verbatim>\<open>JNI_TRUE\<close> exactly when both arrays were acquired, both temporary buffers were
  allocated, \<open>userLen = 5\<close>, \<open>passLen = 5\<close>, and the low bytes of the first five
  characters of each array are the decrypted stored credentials; otherwise it returns
  \<^verbatim>\<open>JNI_FALSE\<close>. The high byte of a character plays no part.
\<close>

theorem checkCredentials_accepts_iff:
  assumes "java_array s hu = Some us" and "java_array s hp = Some ps"
    and "0 \<le> sint userLen" and "nat (sint userLen) \<le> length us"
    and "0 \<le> sint passLen" and "nat (sint passLen) \<le> length ps"
  shows "\<exists>s'. checkCredentials env (Some hu) (Some hp) userLen passLen s =
     Some (user_get env \<noteq> GET_FAILS \<and> pass_get env \<noteq> GET_FAILS \<and>
           userBytes_ok env \<and> passBytes_ok env \<and> userLen = 5 \<and> passLen = 5 \<and>
           take 5 (map lo_byte us) = plain_user \<and> take 5 (map lo_byte ps) = plain_pass, s')"
  using map_option_SomeD [OF checkCredentials_java [OF assms, of env]] by auto

theorem checkCredentials_accepts_iff_witness:
  "\<exists>s'. checkCredentials all_ok (Some 0) (Some 1) 5 5
          (with_array 1 admin_chars (with_array 0 admin_chars empty_world)) = Some (True, s')"
proof -
  have l: "nat (sint (5 :: jint)) \<le> length admin_chars"
    by (simp add: admin_chars_def)
  from checkCredentials_accepts_iff [OF sample_arrays sint_5(1) l sint_5(1) l, of all_ok]
  show ?thesis
    by (simp add: lo_admin all_ok_def plain_user_value plain_pass_value)
qed

text \<open>
  C1 as stated fails: the user array \<open>admin_high\<close> is not the stored plaintext (its first
  character is \<open>0x0161\<close>), and \<^verbatim>\<open>checkCredentials\<close> returns \<^verbatim>\<open>JNI_TRUE\<close> for it.
\<close>

theorem checkCredentials_accepts_high_bytes:
  "map_option fst (checkCredentials all_ok (Some 0) (Some 1) 5 5
      (with_array 1 admin_chars (with_array 0 admin_high empty_world))) = Some True \<and>
   java_array (with_array 1 admin_chars (with_array 0 admin_high empty_world)) 0 = Some admin_high \<and>
   admin_high \<noteq> map ucast plain_user"
proof -
  have l: "nat (sint (5 :: jint)) \<le> length admin_high" "nat (sint (5 :: jint)) \<le> length admin_chars"
    by (simp_all add: admin_high_def admin_chars_def)
  have r: "map_option fst (checkCredentials all_ok (Some 0) (Some 1) 5 5
      (with_array 1 admin_chars (with_array 0 admin_high empty_world))) = Some True"
    using checkCredentials_java [OF sample_arrays sint_5(1) l(1) sint_5(1) l(2), of all_ok]
    by (simp add: lo_admin all_ok_def plain_user_value plain_pass_value)
  have d: "admin_high \<noteq> map ucast plain_user"
    by (simp add: admin_high_def plain_user_value)
  from r d sample_arrays(1) [of admin_high] show ?thesis by blast
qed

subsection \<open>C2: wipeFlagBuffer\<close>

text \<open>
  C2, as amended. For every valid array handle \<^verbatim>\<open>wipeFlagBuffer\<close> returns without
  signalling an error. Afterwards the caller's array reads all zero when the runtime handed
  out a pointer to the array's own storage; when the runtime handed out a copy, or the
  acquisition failed, the caller's array is as before (the zeroed copy is released with
  \<^verbatim>\<open>JNI_ABORT\<close>, which discards it).
\<close>

theorem wipeFlagBuffer_effect:
  assumes "java_array s h = Some cs" and "length cs < 2 ^ 31"
  shows "\<exists>s'. wipeFlagBuffer g (Some h) s = Some s' \<and>
           java_array s' h = Some (if g = GET_DIRECT then replicate (length cs) 0 else cs) \<and>
           pending_exception s' = pending_exception s"
proof -
  from java_array_mem [OF assms(1)] obtain bs where
    bs: "mem s (JArr h) = Some bs" "chars_of_bytes bs = cs" "length cs = length bs div 2"
    by blast
  have lt: "length bs div 2 < 2 ^ 63"
    using assms(2) bs(3) by simp
  from map_option_SomeD [OF wipe_result [OF bs(1) lt, of h g]] obtain s' where
    s': "wipeFlagBuffer g (Some h) s = Some s'"
    and m: "mem s' (JArr h) =
      (if g = GET_DIRECT
       then Some (replicate (2 * (length bs div 2)) 0 @ drop (2 * (length bs div 2)) bs)
       else mem s (JArr h))"
    and p: "pending_exception s' = pending_exception s"
    by auto
  have tail: "chars_of_bytes (drop (2 * (length bs div 2)) bs) = []"
    by (simp add: chars_of_bytes_drop length_chars_of_bytes)
  have "java_array s' h = Some (if g = GET_DIRECT then replicate (length cs) 0 else cs)"
    using m bs tail by (simp add: java_array_def chars_of_bytes_replicate)
  with s' p show ?thesis by blast
qed

theorem wipeFlagBuffer_effect_witness:
  "\<exists>s'. wipeFlagBuffer GET_DIRECT (Some 0) (with_array 0 admin_chars empty_world) = Some s' \<and>
        java_array s' 0 = Some [0, 0, 0, 0, 0]"
proof -
  have a: "java_array (with_array 0 admin_chars empty_world) 0 = Some admin_chars"
    by (simp add: java_array_with_array)
  have l: "length admin_chars < 2 ^ 31"
    by (simp add: admin_chars_def)
  have r: "replicate (length admin_chars) (0 :: jchar) = [0, 0, 0, 0, 0]"
    by (simp add: admin_chars_def)
  from wipeFlagBuffer_effect [OF a l, of GET_DIRECT] r show ?thesis by auto
qed

text \<open>
  C2 as stated fails: when the runtime hands out a copy, the caller's array still reads
  \<open>[0x41, 0x42]\<close> after the call.
\<close>

theorem wipeFlagBuffer_copy_leaves_array:
  "\<exists>s'. wipeFlagBuffer GET_COPY (Some 0) (with_array 0 [0x41, 0x42] empty_world) = Some s' \<and>
        java_array s' 0 = Some [0x41, 0x42]"
proof -
  let ?w = "with_array 0 [0x41, 0x42] empty_world"
  have m: "mem ?w (JArr 0) = Some (bytes_of_chars [0x41, 0x42])"
    by (simp add: mem_with_array)
  have lt: "length (bytes_of_chars [0x41, 0x42]) div 2 < 2 ^ 63"
    by (simp add: length_bytes_of_chars)
  from map_option_SomeD [OF wipe_result [OF m lt, of 0 GET_COPY]] obtain s' where
    "wipeFlagBuffer GET_COPY (Some 0) ?w = Some s'"
    "mem s' (JArr 0) = Some (bytes_of_chars [0x41, 0x42])"
    using m by auto
  then show ?thesis
    by (auto simp: java_array_def chars_of_bytes_of_chars_id)
qed

subsection \<open>C3: a destination that is too small\<close>

text \<open>
  C3, as amended. For a destination array of fewer than \<open>FLAG_LEN = 25\<close> elements,
  \<^verbatim>\<open>decryptFlagIntoBuffer\<close> returns normally, the storage of every Java array (the
  destination among them) is bit for bit as before, and no exception is pending that was
  not pending before: the caller gets no error signal.
\<close>

theorem decrypt_buffer_too_small:
  assumes "java_array s h = Some cs" and "length cs < FLAG_LEN"
  shows "\<exists>s'. decryptFlagIntoBuffer env (Some h) s = Some s' \<and>
           (\<forall>k. mem s' (JArr k) = mem s (JArr k)) \<and>
           java_array s' h = Some cs \<and>
           pending_exception s' = pending_exception s"
proof -
  from java_array_mem [OF assms(1)] obtain bs where
    bs: "mem s (JArr h) = Some bs" "length cs = length bs div 2" by blast
  have small: "length bs div 2 < 25 \<or> buffer_get env = GET_FAILS \<or> \<not> tempDecrypt_ok env"
    using assms(2) bs(2) by (simp add: FLAG_LEN_def)
  from map_option_SomeD [OF df_other [OF bs(1) small, of h]] obtain s' where
    s': "decryptFlagIntoBuffer env (Some h) s = Some s'"
    and p: "pending_exception s' = pending_exception s"
    by auto
  have "mem s' (JArr k) = mem s (JArr k)" for k
    using df_other [OF bs(1) small, of k] s' by simp
  then show ?thesis
    using s' p assms(1) by (simp add: java_array_def)
qed

theorem decrypt_buffer_too_small_witness:
  "\<exists>s'. decryptFlagIntoBuffer df_ok (Some 0) (with_array 0 admin_chars empty_world) = Some s' \<and>
        java_array s' 0 = Some admin_chars \<and> pending_exception s' = None"
proof -
  have a: "java_array (with_array 0 admin_chars empty_world) 0 = Some admin_chars"
    by (simp add: java_array_with_array)
  have l: "length admin_chars < FLAG_LEN"
    by (simp add: admin_chars_def FLAG_LEN_def)
  have p: "pending_exception (with_array 0 admin_chars empty_world) = None"
    by (simp add: with_array_def empty_world_def)
  from decrypt_buffer_too_small [OF a l, of df_ok] p show ?thesis by auto
qed

text \<open>
  C3 as stated fails: on a destination of three elements the call returns with no
  exception pending; \<open>BufferTooSmallError\<close> is not signalled.
\<close>

theorem decrypt_too_small_signals_nothing:
  "\<exists>s'. decryptFlagIntoBuffer df_ok (Some 0) (with_array 0 [0x41, 0x42, 0x43] empty_world) = Some s' \<and>
        pending_exception s' = None \<and> pending_exception s' \<noteq> Some BufferTooSmallError"
proof -
  let ?w = "with_array 0 [0x41, 0x42, 0x43] empty_world"
  have m: "mem ?w (JArr 0) = Some (bytes_of_chars [0x41, 0x42, 0x43])"
    by (simp add: mem_with_array)
  have small: "length (bytes_of_chars [0x41, 0x42, 0x43]) div 2 < 25 \<or>
      buffer_get df_ok = GET_FAILS \<or> \<not> tempDecrypt_ok df_ok"
    by (simp add: length_bytes_of_chars)
  have p: "pending_exception ?w = None"
    by (simp add: with_array_def empty_world_def)
  from map_option_SomeD [OF df_other [OF m small, of 0]] p show ?thesis by auto
qed

subsection \<open>C4: a successful decryption\<close>

text \<open>
  C4. For a destination array of at least \<open>FLAG_LEN = 25\<close> elements, when the array is
  acquired and the temporary buffer is allocated, \<^verbatim>\<open>decryptFlagIntoBuffer\<close> returns and
  the destination then holds the 25 plaintext bytes (each \<open>ENC_FLAG\<close> byte XOR \<open>0x5A\<close>,
  widened to a character) in its first 25 elements, followed by its former elements from
  index 25 on, unchanged. This holds whether the runtime hands out a copy or the array's
  storage, whether or not the locked block could be allocated, and for a signed as for an
  unsigned \<^verbatim>\<open>char\<close>.
\<close>

theorem decrypt_fills_first_25:
  assumes "java_array s h = Some cs" and "FLAG_LEN \<le> length cs"
    and "buffer_get env \<noteq> GET_FAILS" and "tempDecrypt_ok env"
  shows "\<exists>s'. decryptFlagIntoBuffer env (Some h) s = Some s' \<and>
           java_array s' h = Some (map ucast flag_plain @ drop FLAG_LEN cs)"
proof -
  from java_array_mem [OF assms(1)] obtain bs where
    bs: "mem s (JArr h) = Some bs" "chars_of_bytes bs = cs" "length cs = length bs div 2"
    by blast
  have big: "25 \<le> length bs div 2"
    using assms(2) bs(3) by (simp add: FLAG_LEN_def)
  from map_option_SomeD [OF df_success [OF bs(1) big assms(3,4)]] obtain s' where
    s': "decryptFlagIntoBuffer env (Some h) s = Some s'"
    and m: "mem s' (JArr h) =
      Some (bytes_of_chars (map (char_to_jchar (char_signed env)) flag_plain) @ drop 50 bs)"
    by auto
  have "chars_of_bytes (drop (2 * 25) bs) = drop 25 (chars_of_bytes bs)"
    by (rule chars_of_bytes_drop)
  then have "java_array s' h = Some (map ucast flag_plain @ drop 25 cs)"
    using m bs(2) by (simp add: java_array_def chars_of_bytes_of_chars char_to_jchar_flag)
  then show ?thesis
    using s' by (simp add: FLAG_LEN_def)
qed

theorem decrypt_fills_first_25_witness:
  "\<exists>s'. decryptFlagIntoBuffer df_ok (Some 0) (with_array 0 (replicate 27 0x2A) empty_world) = Some s' \<and>
        java_array s' 0 = Some (map ucast flag_plain @ [0x2A, 0x2A])"
proof -
  have a: "java_array (with_array 0 (replicate 27 0x2A) empty_world) 0 = Some (replicate 27 0x2A)"
    by (simp add: java_array_with_array)
  have l: "FLAG_LEN \<le> length (replicate 27 (0x2A :: jchar))"
    by (simp add: FLAG_LEN_def)
  have g: "buffer_get df_ok \<noteq> GET_FAILS" "tempDecrypt_ok df_ok"
    by (simp_all add: df_ok_def)
  have d: "drop FLAG_LEN (replicate 27 (0x2A :: jchar)) = [0x2A, 0x2A]"
    by (simp add: FLAG_LEN_def numeral_2_eq_2)
  from decrypt_fills_first_25 [OF a l g] d show ?thesis by simp
qed

subsection \<open>C5: cleanup on error paths\<close>

text \<open>
  C5. The code breaks the claim. With a destination of 25 elements, the locked block
  allocated and the allocation of the temporary buffer failing, \<^verbatim>\<open>decryptFlagIntoBuffer\<close>
  unlocks and frees the locked block \<open>Blk 1\<close> without any \<^verbatim>\<open>secure_memzero\<close> of it (first
  run below). The success path of the same function wipes that block before it unlocks and
  frees it (second run), as do the error paths of \<^verbatim>\<open>checkCredentials\<close>.
\<close>

theorem decrypt_alloc_failure_frees_unwiped:
  "map_option trace
     (decryptFlagIntoBuffer (df_ok\<lparr>tempDecrypt_ok := False\<rparr>) (Some 0)
        (with_array 0 (replicate 25 0x2A) empty_world)) =
   Some [GetElements 0 (Blk 0), Malloc (Blk 1) 1024, Mlock (Blk 1) 1024,
         Munlock (Blk 1) 1024, Free (Blk 1), ReleaseElements 0 (Blk 0) JNI_ABORT] \<and>
   map_option trace
     (decryptFlagIntoBuffer df_ok (Some 0) (with_array 0 (replicate 25 0x2A) empty_world)) =
   Some [GetElements 0 (Blk 0), Malloc (Blk 1) 1024, Mlock (Blk 1) 1024, Malloc (Blk 2) 25,
         Memzero (Blk 2) 25, Free (Blk 2), Memzero (Blk 1) 1024, Munlock (Blk 1) 1024,
         Free (Blk 1), ReleaseElements 0 (Blk 0) MODE_0]"
  by (simp split del: if_split add: decryptFlagIntoBuffer_def decrypt_and_copy_def df_ok_def
      malloc_def mlock_def munlock_def GetCharArrayElements_def GetArrayLength_def
      record_event_def FLAG_LEN_def xor_loop_0 widen_loop_0 secure_memzero_eq' free_Blk
      Release_eq Release_0_eq with_array_def empty_world_def length_bytes_of_chars)

subsection \<open>C6: secure\_memzero\<close>

text \<open>
  C6. For a non-null pointer to a live block of at least \<open>n\<close> bytes, \<^verbatim>\<open>secure_memzero\<close>
  returns, and immediately afterwards each of the first \<open>n\<close> bytes of the block reads as
  zero; the bytes behind them and every other block are as before.
\<close>

theorem secure_memzero_zeroes:
  assumes "mem s a = Some bs" and "n \<le> length bs"
  shows "\<exists>s'. secure_memzero (Some a) n s = Some s' \<and>
           (\<forall>i<n. load8 s' a i = Some 0) \<and>
           (\<forall>i. n \<le> i \<longrightarrow> load8 s' a i = load8 s a i) \<and>
           (\<forall>b. b \<noteq> a \<longrightarrow> mem s' b = mem s b)"
proof -
  let ?s = "s\<lparr>mem := (mem s)(a \<mapsto> replicate n 0 @ drop n bs),
               trace := trace s @ (if n = 0 then [] else [Memzero a n])\<rparr>"
  have run: "secure_memzero (Some a) n s = Some ?s"
    using assms by (simp add: secure_memzero_eq')
  have z: "\<forall>i<n. load8 ?s a i = Some 0"
    using assms by (simp add: load8_def nth_append)
  have k: "\<forall>i. n \<le> i \<longrightarrow> load8 ?s a i = load8 s a i"
    using assms by (auto simp: load8_def nth_append)
  have f: "\<forall>b. b \<noteq> a \<longrightarrow> mem ?s b = mem s b"
    by simp
  from run z k f show ?thesis by blast
qed

theorem secure_memzero_zeroes_witness:
  "\<exists>s'. secure_memzero (Some (JArr 0)) 3 (with_array 0 [0x4142, 0x4344] empty_world) = Some s' \<and>
        load8 s' (JArr 0) 0 = Some 0 \<and> load8 s' (JArr 0) 1 = Some 0 \<and>
        load8 s' (JArr 0) 2 = Some 0 \<and> load8 s' (JArr 0) 3 = Some 0x43"
proof -
  let ?w = "with_array 0 [0x4142, 0x4344] empty_world"
  have m: "mem ?w (JArr 0) = Some [0x42, 0x41, 0x44, 0x43]"
    by (simp add: mem_with_array bytes_of_chars_def lo_byte_def hi_byte_def)
  have l: "3 \<le> length [0x42, 0x41, 0x44, 0x43 :: uchar]" by simp
  from secure_memzero_zeroes [OF m l] obtain s' where
    r: "secure_memzero (Some (JArr 0)) 3 ?w = Some s'"
    and z: "\<forall>i<3. load8 s' (JArr 0) i = Some 0"
    and k: "\<forall>i. 3 \<le> i \<longrightarrow> load8 s' (JArr 0) i = load8 ?w (JArr 0) i"
    by blast
  have "load8 s' (JArr 0) 3 = Some 0x43"
    using k m by (simp add: load8_def)
  with r z show ?thesis by simp
qed

subsection \<open>C7: getFlagLength\<close>


subsection \<open>C8: the comparison\<close>




subsection \<open>C9: only the low bytes of the characters matter\<close>

text \<open>
  C9. Take two worlds whose user arrays agree in the low byte of every character, and
  whose password arrays do, too, and the same \<open>userLen\<close>, \<open>passLen\<close> (non-negative, within
  the arrays) and environment. Then \<^verbatim>\<open>checkCredentials\<close> returns in both, with the same
  boolean.
\<close>

theorem checkCredentials_low_bytes_only:
  assumes "java_array s1 hu = Some us1" and "java_array s1 hp = Some ps1"
    and "java_array s2 hu = Some us2" and "java_array s2 hp = Some ps2"
    and "map lo_byte us1 = map lo_byte us2" and "map lo_byte ps1 = map lo_byte ps2"
    and "0 \<le> sint userLen" and "nat (sint userLen) \<le> length us1"
    and "0 \<le> sint passLen" and "nat (sint passLen) \<le> length ps1"
  shows "\<exists>b. map_option fst (checkCredentials env (Some hu) (Some hp) userLen passLen s1) = Some b \<and>
             map_option fst (checkCredentials env (Some hu) (Some hp) userLen passLen s2) = Some b"
proof -
  have "length (map lo_byte us1) = length (map lo_byte us2)"
    "length (map lo_byte ps1) = length (map lo_byte ps2)"
    using assms(5,6) by simp_all
  then have l: "nat (sint userLen) \<le> length us2" "nat (sint passLen) \<le> length ps2"
    using assms(8,10) by simp_all
  have r1: "map_option fst (checkCredentials env (Some hu) (Some hp) userLen passLen s1) =
     Some (user_get env \<noteq> GET_FAILS \<and> pass_get env \<noteq> GET_FAILS \<and>
           userBytes_ok env \<and> passBytes_ok env \<and> userLen = 5 \<and> passLen = 5 \<and>
           take 5 (map lo_byte us2) = plain_user \<and> take 5 (map lo_byte ps2) = plain_pass)"
    using checkCredentials_java [OF assms(1,2,7,8,9,10), of env]
    by (simp only: assms(5,6))
  have r2: "map_option fst (checkCredentials env (Some hu) (Some hp) userLen passLen s2) =
     Some (user_get env \<noteq> GET_FAILS \<and> pass_get env \<noteq> GET_FAILS \<and>
           userBytes_ok env \<and> passBytes_ok env \<and> userLen = 5 \<and> passLen = 5 \<and>
           take 5 (map lo_byte us2) = plain_user \<and> take 5 (map lo_byte ps2) = plain_pass)"
    by (rule checkCredentials_java [OF assms(3,4,7) l(1) assms(9) l(2)])
  from r1 r2 show ?thesis by blast
qed

theorem checkCredentials_low_bytes_only_witness:
  "map_option fst (checkCredentials all_ok (Some 0) (Some 1) 5 5
      (with_array 1 admin_chars (with_array 0 admin_high empty_world))) =
   map_option fst (checkCredentials all_ok (Some 0) (Some 1) 5 5
      (with_array 1 admin_chars (with_array 0 admin_chars empty_world))) \<and>
   admin_high \<noteq> admin_chars"
proof -
  have l: "nat (sint (5 :: jint)) \<le> length admin_high"
    by (simp add: admin_high_def)
  have e: "map lo_byte admin_high = map lo_byte admin_chars"
    by (simp add: admin_high_def admin_chars_def lo_byte_def)
  have d: "admin_high \<noteq> admin_chars"
    by (simp add: admin_high_def admin_chars_def)
  have l': "nat (sint (5 :: jint)) \<le> length admin_chars"
    by (simp add: admin_chars_def)
  from checkCredentials_low_bytes_only
    [OF sample_arrays sample_arrays e refl sint_5(1) l sint_5(1) l', of all_ok] d
  show ?thesis
    by auto
qed

subsection \<open>C10: a null handle, a failed acquisition\<close>

text \<open>
  C10. Called with a null handle, \<^verbatim>\<open>decryptFlagIntoBuffer\<close> and \<^verbatim>\<open>wipeFlagBuffer\<close>
  return with the whole state as it was: no memory written, no exception pending that was
  not, no call recorded. The same holds for a valid handle when the acquisition of the
  array's elements fails.
\<close>

theorem null_handle_or_failed_acquire_is_noop:
  "decryptFlagIntoBuffer env None s = Some s \<and>
   wipeFlagBuffer g None s = Some s \<and>
   (mem s (JArr h) \<noteq> None \<longrightarrow> buffer_get env = GET_FAILS \<longrightarrow>
      decryptFlagIntoBuffer env (Some h) s = Some s) \<and>
   (mem s (JArr h) \<noteq> None \<longrightarrow> wipeFlagBuffer GET_FAILS (Some h) s = Some s)"
  by (auto simp: decryptFlagIntoBuffer_def wipeFlagBuffer_def GetCharArrayElements_def)

theorem null_handle_or_failed_acquire_is_noop_witness:
  "decryptFlagIntoBuffer (df_ok\<lparr>buffer_get := GET_FAILS\<rparr>) None (with_array 0 admin_chars empty_world)
     = Some (with_array 0 admin_chars empty_world) \<and>
   wipeFlagBuffer GET_FAILS None (with_array 0 admin_chars empty_world)
     = Some (with_array 0 admin_chars empty_world) \<and>
   decryptFlagIntoBuffer (df_ok\<lparr>buffer_get := GET_FAILS\<rparr>) (Some 0)
       (with_array 0 admin_chars empty_world)
     = Some (with_array 0 admin_chars empty_world) \<and>
   wipeFlagBuffer GET_FAILS (Some 0) (with_array 0 admin_chars empty_world)
     = Some (with_array 0 admin_chars empty_world)"
  using null_handle_or_failed_acquire_is_noop
    [of "df_ok\<lparr>buffer_get := GET_FAILS\<rparr>" "with_array 0 admin_chars empty_world" GET_FAILS 0]
  by (simp add: mem_with_array)

end
